theory Spec2Isabelle
  imports Main "HOL-Library.Word" "HOL-Library.Sublist"
begin

section \<open>The databusc consumer (pkg/queue/databusc/consumer.go)\<close>

text \<open>
  A shallow embedding of the Kafka consumption front-end: the constructor
  \<open>NewConsumer\<close>, the dispatcher \<open>SendToChannel\<close>, the poll loop spawned by
  \<open>Start\<close>, the worker loops spawned by the constructor, and \<open>Close\<close>.

  Go's \<open>int\<close> values are modelled as \<open>int\<close> (the code only compares them, counts
  with them and converts them to \<open>int32\<close>); \<open>int32\<close> is \<open>32 word\<close> read with
  \<open>sint\<close>. Go strings are byte sequences, that is \<open>string\<close>.
\<close>

subsection \<open>Library functions the code calls\<close>

type_synonym int32 = "32 word"

text \<open>The conversion \<open>int32(x)\<close> of an \<open>int\<close>: the low 32 bits.\<close>

definition to_int32 :: "int \<Rightarrow> int32" where
  "to_int32 x = word_of_int x"

text \<open>Go's \<open>%\<close> truncates towards zero: the result has the sign of the dividend.\<close>

definition go_rem :: "int \<Rightarrow> int \<Rightarrow> int" where
  "go_rem a b = sgn a * (\<bar>a\<bar> mod \<bar>b\<bar>)"

definition is_digit :: "char \<Rightarrow> bool" where
  "is_digit c = (48 \<le> (of_char c :: nat) \<and> (of_char c :: nat) \<le> 57)"

definition digit_val :: "char \<Rightarrow> nat" where
  "digit_val c = of_char c - 48"

fun parse_digits :: "string \<Rightarrow> nat \<Rightarrow> nat option" where
  "parse_digits [] n = Some n"
| "parse_digits (ch # s) n =
     (if is_digit ch then parse_digits s (n * 10 + digit_val ch) else None)"

text \<open>
  \<open>strconv.Atoi\<close> in base 10 on a 64-bit platform: an optional sign, then one or
  more decimal digits, and the value must fit \<open>int\<close>. \<open>None\<close> stands for a
  non-nil error (syntax or range); the code only tests \<open>converr == nil\<close>.
\<close>

definition Atoi :: "string \<Rightarrow> int option" where
  "Atoi s =
     (case s of
        [] \<Rightarrow> None
      | c # cs \<Rightarrow>
          (let neg = (c = CHR ''-'');
               ds = (if c = CHR ''-'' \<or> c = CHR ''+'' then cs else s)
           in if ds = [] then None
              else (case parse_digits ds 0 of
                      None \<Rightarrow> None
                    | Some n \<Rightarrow>
                        (let v = (if neg then - int n else int n)
                         in if - (2 ^ 63) \<le> v \<and> v < 2 ^ 63 then Some v else None))))"

text \<open>\<open>fmt.Sprintf("%d", i)\<close>: the decimal digits, with a minus sign for a negative.\<close>

definition digit_char :: "nat \<Rightarrow> char" where
  "digit_char d = char_of (48 + d)"

fun dec_nat :: "nat \<Rightarrow> string" where
  "dec_nat n = (if n < 10 then [digit_char n] else dec_nat (n div 10) @ [digit_char (n mod 10)])"

declare dec_nat.simps [simp del]

definition Sprintf_d :: "int \<Rightarrow> string" where
  "Sprintf_d i = (if i < 0 then CHR ''-'' # dec_nat (nat (- i)) else dec_nat (nat i))"

subsection \<open>Data\<close>

text \<open>\<open>kafka.Message\<close>: the fields the consumer reads.\<close>

record Message =
  Key :: string
  Partition :: int32
  Offset :: int
  Value :: string

text \<open>
  What a call of the user's \<open>DealMessage\<close> does: it returns nil, returns an
  error, or panics.
\<close>

datatype deal_outcome = DealOk | DealError | DealPanic

record ConsumerParam =
  Address :: string
  GroupId :: string
  Topic :: string
  Dealhanle :: "Message \<Rightarrow> deal_outcome"
  ConsumerMode :: int
  AutoCommitMode :: int
  ThreadNum :: int

datatype config_value = CString string | CInt int | CBool bool

type_synonym ConfigMap = "string \<rightharpoonup> config_value"

text \<open>A buffered Go channel: its buffer (oldest first), its capacity, whether it is closed.\<close>

record 'a chan =
  buf :: "'a list"
  cap :: nat
  closed :: bool

definition make_chan :: "nat \<Rightarrow> 'a chan" where
  "make_chan n = \<lparr>buf = [], cap = n, closed = False\<rparr>"

datatype panic = DivideByZero | IndexOutOfRange | SendOnClosedChannel | CloseOfClosedChannel

text \<open>
  The result of an operation that can block or panic: it completes with a
  value, cannot proceed in this state, or panics.
\<close>

datatype 'a outcome = Done 'a | Blocked | Panic panic

definition chan_send :: "'a \<Rightarrow> 'a chan \<Rightarrow> 'a chan outcome" where
  "chan_send x c =
     (if closed c then Panic SendOnClosedChannel
      else if length (buf c) < cap c then Done (c\<lparr>buf := buf c @ [x]\<rparr>)
      else Blocked)"

definition chan_close :: "'a chan \<Rightarrow> panic + 'a chan" where
  "chan_close c = (if closed c then Inl CloseOfClosedChannel else Inr (c\<lparr>closed := True\<rparr>))"

text \<open>
  The transport client (package \<open>kafka\<close>) is external. The model keeps what the
  consumer asks of it: the topics subscribed, the number of bulk \<open>Commit()\<close>
  calls, the messages passed to \<open>CommitMessage\<close>, the number of \<open>Assign\<close> and
  \<open>Unassign\<close> calls, and whether \<open>Close()\<close> was called.
\<close>

record kafka_Consumer =
  SubscribeTopics_calls :: "string list"
  Commit_calls :: nat
  CommitMessage_calls :: "Message list"
  Assign_calls :: nat
  Unassign_calls :: nat
  Close_called :: bool

datatype kafka_code = ErrAllBrokersDown | ErrOtherCode

datatype kafka_event =
    EvMessage Message
  | EvError kafka_code
  | EvAssignedPartitions
  | EvRevokedPartitions
  | EvPartitionEOF
  | EvOther

text \<open>
  Modelled from the spec: the type \<open>Consistent\<close> with \<open>New\<close>, \<open>Add\<close> and \<open>Get\<close>
  belongs to this package but is not among the sources. The ring is its
  members, in the order they were added. \<open>Get\<close> is a parameter of the model,
  of type \<open>ring_get\<close>; \<open>None\<close> stands for a non-nil error. The spec's contract
  of \<open>Get\<close> (an error only on a ring with no member, a member otherwise) is
  \<open>ring_contract\<close>.
\<close>

type_synonym Consistent = "string list"

type_synonym ring_get = "Consistent \<Rightarrow> string \<Rightarrow> string option"

definition New :: Consistent where
  "New = []"

definition Add :: "string \<Rightarrow> Consistent \<Rightarrow> Consistent" where
  "Add elt c = c @ [elt]"

definition ring_contract :: "ring_get \<Rightarrow> bool" where
  "ring_contract get =
     (\<forall>c k. (c = [] \<longrightarrow> get c k = None) \<and> (c \<noteq> [] \<longrightarrow> (\<exists>m \<in> set c. get c k = Some m)))"

text \<open>The lines \<open>log.Error\<close> and \<open>log.Info\<close> write, by the place that writes them.\<close>

datatype log_entry =
    LogNewConsumerError
  | LogDealChanException nat
  | LogDealChanClosed nat
  | LogStartException
  | LogSubscribeTopicsError
  | LogConsumerError
  | LogIgnoredConsumerError
  | LogAssignedPartitions
  | LogRevokedPartitions
  | LogPartitionEOF
  | LogStartIsExit
  | LogWaitClose
  | LogClosed

type_synonym addr = nat

record consumerEvent =
  isclose :: bool
  param :: addr
  config :: ConfigMap
  consumer :: kafka_Consumer
  wg :: int
  exit :: "int chan option"
  queuelist :: "Message chan list"
  sis :: Consistent

text \<open>Where the goroutine spawned by \<open>Start\<close> stands.\<close>

datatype poll_pc =
  NotStarted | Subscribing | Polling | Selecting | Sending Message | Exited | Recovered

text \<open>Where a call of \<open>Close\<close> stands.\<close>

datatype close_pc = NotCalled | FlagSet | Waiting | Returned | ClosePanicked

text \<open>
  The state of one consumer and its goroutines. \<open>heap\<close> holds the
  \<open>ConsumerParam\<close> objects by address: the handle keeps the caller's pointer,
  not a copy. \<open>workers ! i\<close> tells whether worker goroutine \<open>i\<close> is still in
  its loop. \<open>index\<close> is the local variable of the goroutine of \<open>Start\<close>.
  \<open>exit_logged\<close> tells, once that goroutine has called \<open>wg.Done()\<close>, whether
  it has also written its last log line. \<open>calls\<close> lists the invocations of
  \<open>DealMessage\<close> and \<open>sent\<close> the completed sends
  \<open>handle.queuelist[mod] <- msg\<close>, each with the worker index.
\<close>

record world =
  heap :: "addr \<Rightarrow> ConsumerParam"
  handle :: consumerEvent
  workers :: "bool list"
  poller :: poll_pc
  index :: int
  exit_logged :: bool
  closer :: close_pc
  logs :: "log_entry list"
  calls :: "(nat \<times> Message) list"
  sent :: "(nat \<times> Message) list"

subsection \<open>NewConsumer\<close>

text \<open>
  Lines 59 to 72. \<open>now\<close> and \<open>pid\<close> are the results of \<open>time.Now().Unix()\<close> and
  \<open>os.Getpid()\<close>.
\<close>

definition new_config :: "ConsumerParam \<Rightarrow> int \<Rightarrow> int \<Rightarrow> int \<Rightarrow> ConfigMap" where
  "new_config p now pid Id_arg =
     (Map.empty
       (''bootstrap.servers'' \<mapsto> CString (Address p),
        ''broker.address.family'' \<mapsto> CString ''v4'',
        ''group.id'' \<mapsto> CString (GroupId p),
        ''session.timeout.ms'' \<mapsto> CInt 6000,
        ''client.id'' \<mapsto>
           CString (''rdkafka-'' @ Sprintf_d now @ ''-'' @ Sprintf_d pid @ ''-'' @ Sprintf_d Id_arg),
        ''auto.offset.reset'' \<mapsto> CString ''latest'',
        ''enable.auto.commit'' \<mapsto> CBool True,
        ''enable.auto.offset.store'' \<mapsto> CBool True,
        ''socket.keepalive.enable'' \<mapsto> CBool True,
        ''go.events.channel.enable'' \<mapsto> CBool True,
        ''enable.partition.eof'' \<mapsto> CBool True))"

text \<open>Lines 91 to 95: the ring receives the identifiers \<open>0\<close> to \<open>ThreadNum - 1\<close>.\<close>

definition new_ring :: "int \<Rightarrow> Consistent" where
  "new_ring n = fold (\<lambda>i c. Add (Sprintf_d (int i)) c) [0..<nat n] New"

datatype new_result =
    NewFailed "addr \<Rightarrow> ConsumerParam" "log_entry list"
  | Created world

text \<open>
  \<open>knew\<close> is \<open>kafka.NewConsumer\<close>, which yields a client or an error (\<open>None\<close>).
  The constructor stores the pointer \<open>param\<close> in the handle and writes the
  default thread number through it (lines 57, 87 to 89). Each queue has
  capacity 2 and one worker goroutine (lines 97 to 117).
\<close>

definition NewConsumer ::
  "(ConfigMap \<Rightarrow> kafka_Consumer option) \<Rightarrow> int \<Rightarrow> int \<Rightarrow>
   (addr \<Rightarrow> ConsumerParam) \<Rightarrow> addr \<Rightarrow> int \<Rightarrow> new_result" where
  "NewConsumer knew now pid hp prm Id_arg =
     (let cfg = new_config (hp prm) now pid Id_arg
      in case knew cfg of
           None \<Rightarrow> NewFailed hp [LogNewConsumerError]
         | Some c \<Rightarrow>
             (let ex = (if ConsumerMode (hp prm) = 1 then Some (make_chan 1) else None);
                  hp' = (if ThreadNum (hp prm) \<le> 0
                         then hp(prm := (hp prm)\<lparr>ThreadNum := 51\<rparr>) else hp);
                  n = ThreadNum (hp' prm)
              in Created
                   \<lparr>heap = hp',
                    handle = \<lparr>isclose = False, param = prm, config = cfg, consumer = c,
                              wg = 1, exit = ex,
                              queuelist = replicate (nat n) (make_chan 2),
                              sis = new_ring n\<rparr>,
                    workers = replicate (nat n) True,
                    poller = NotStarted, index = 0, exit_logged = False,
                    closer = NotCalled,
                    logs = [], calls = [], sent = []\<rparr>))"

subsection \<open>SendToChannel\<close>

text \<open>
  Lines 123 to 139: the destination \<open>mod\<close>. The ring's answer is used when
  \<open>Get\<close> and \<open>Atoi\<close> both return no error; otherwise the partition modulo the
  thread number, computed on \<open>int32\<close>, where a zero divisor panics.
\<close>

definition route :: "ring_get \<Rightarrow> Consistent \<Rightarrow> int \<Rightarrow> Message \<Rightarrow> panic + int32" where
  "route get ring threadnum msg =
     (let key = Key msg;
          (iseffective, modv) =
            (if key \<noteq> []
             then (case get ring key of
                     None \<Rightarrow> (False, 0)
                   | Some modstr \<Rightarrow>
                       (case Atoi modstr of
                          None \<Rightarrow> (False, 0)
                        | Some convstr \<Rightarrow> (True, to_int32 convstr)))
             else (False, 0))
      in if iseffective = False
         then (if to_int32 threadnum = 0 then Inl DivideByZero
               else Inr (word_of_int (go_rem (sint (Partition msg)) (sint (to_int32 threadnum)))))
         else Inr modv)"

definition Commit :: "world \<Rightarrow> world" where
  "Commit w =
     w\<lparr>handle := (handle w)\<lparr>consumer :=
          (consumer (handle w))\<lparr>Commit_calls := Suc (Commit_calls (consumer (handle w)))\<rparr>\<rparr>\<rparr>"

definition CommitMessage :: "Message \<Rightarrow> world \<Rightarrow> world" where
  "CommitMessage msg w =
     w\<lparr>handle := (handle w)\<lparr>consumer :=
          (consumer (handle w))\<lparr>CommitMessage_calls :=
             CommitMessage_calls (consumer (handle w)) @ [msg]\<rparr>\<rparr>\<rparr>"

text \<open>
  Lines 122 to 151, with the final value of the parameter \<open>index\<close> beside the
  state. Indexing \<open>queuelist\<close> out of range panics; the send blocks while the
  queue holds 2 messages.
\<close>

definition SendToChannel_body ::
  "ring_get \<Rightarrow> world \<Rightarrow> Message \<Rightarrow> int \<Rightarrow> (world \<times> int) outcome" where
  "SendToChannel_body get w msg idx =
     (let h = handle w; p = heap w (param h)
      in case route get (sis h) (ThreadNum p) msg of
           Inl e \<Rightarrow> Panic e
         | Inr modv \<Rightarrow>
             if sint modv < 0 \<or> int (length (queuelist h)) \<le> sint modv
             then Panic IndexOutOfRange
             else (let i = nat (sint modv)
                   in case chan_send msg (queuelist h ! i) of
                        Panic e \<Rightarrow> Panic e
                      | Blocked \<Rightarrow> Blocked
                      | Done q \<Rightarrow>
                          (let w1 = w\<lparr>handle := h\<lparr>queuelist := (queuelist h)[i := q]\<rparr>,
                                      sent := sent w @ [(i, msg)]\<rparr>
                           in if AutoCommitMode p = 0
                              then (let (w2, idx2) =
                                          (if idx > 1000 then (Commit w1, 0) else (w1, idx))
                                    in Done (w2, idx2 + 1))
                              else if AutoCommitMode p = 1
                              then Done (CommitMessage msg w1, idx)
                              else Done (w1, idx))))"

text \<open>
  Go passes \<open>index\<close> by value and the function returns nothing: the caller
  keeps its own \<open>index\<close>.
\<close>

definition SendToChannel :: "ring_get \<Rightarrow> world \<Rightarrow> Message \<Rightarrow> int \<Rightarrow> world outcome" where
  "SendToChannel get w msg idx =
     (case SendToChannel_body get w msg idx of
        Done (w', idx') \<Rightarrow> Done w'
      | Blocked \<Rightarrow> Blocked
      | Panic e \<Rightarrow> Panic e)"

subsection \<open>The worker goroutines\<close>

text \<open>
  Lines 100 to 116, one receive of worker \<open>i\<close>. A message is taken from the
  head of the queue and handed to \<open>DealMessage\<close>, whose result is dropped. A
  panic of the handler leaves the \<open>for\<close> loop: the deferred function recovers
  it, logs, and the goroutine ends. On a closed and empty queue the goroutine
  logs and ends. \<open>None\<close>: the worker cannot move (it has ended, or its queue
  is empty and open).
\<close>

definition worker_step :: "nat \<Rightarrow> world \<Rightarrow> world option" where
  "worker_step i w =
     (let h = handle w
      in if \<not> (i < length (workers w) \<and> i < length (queuelist h) \<and> workers w ! i) then None
         else (case buf (queuelist h ! i) of
                 [] \<Rightarrow>
                   if closed (queuelist h ! i)
                   then Some (w\<lparr>logs := logs w @ [LogDealChanClosed i],
                                workers := (workers w)[i := False]\<rparr>)
                   else None
               | msg # rest \<Rightarrow>
                   (let w1 = w\<lparr>handle := h\<lparr>queuelist :=
                                    (queuelist h)[i := (queuelist h ! i)\<lparr>buf := rest\<rparr>]\<rparr>,
                               calls := calls w @ [(i, msg)]\<rparr>
                    in case Dealhanle (heap w (param h)) msg of
                         DealPanic \<Rightarrow>
                           Some (w1\<lparr>logs := logs w1 @ [LogDealChanException i],
                                    workers := (workers w1)[i := False]\<rparr>)
                       | _ \<Rightarrow> Some w1)))"

subsection \<open>The goroutine of Start\<close>

text \<open>What the transport answers to the goroutine in one iteration.\<close>

datatype reply =
    SubscribeTopics_result bool
  | Poll_result "kafka_event option"
  | Select_exit
  | Select_event kafka_event

text \<open>
  Lines 221 to 225, after the loop: the last bulk commit unless the mode is 1,
  then \<open>wg.Done()\<close>. The log line of line 226 is a move of its own
  (\<open>exit_line\<close>), so that moves of \<open>Close\<close> can come in between.
\<close>

definition loop_exit :: "world \<Rightarrow> world" where
  "loop_exit w =
     (let w1 = (if AutoCommitMode (heap w (param (handle w))) \<noteq> 1 then Commit w else w)
      in w1\<lparr>handle := (handle w1)\<lparr>wg := wg (handle w1) - 1\<rparr>,
            poller := Exited, exit_logged := False\<rparr>)"

definition exit_line :: "world \<Rightarrow> world option" where
  "exit_line w =
     (if exit_logged w then None
      else Some (w\<lparr>logs := logs w @ [LogStartIsExit], exit_logged := True\<rparr>))"

text \<open>
  The call \<open>handle.SendToChannel(e, index)\<close> of lines 182 and 209, for the
  message \<open>e\<close> the goroutine has taken. A panic in the goroutine is recovered
  by its deferred function (lines 155 to 159), which logs; the goroutine ends
  there, before \<open>wg.Done()\<close>. \<open>None\<close>: the send is blocked.
\<close>

definition dispatch :: "ring_get \<Rightarrow> Message \<Rightarrow> world \<Rightarrow> world option" where
  "dispatch get e w =
     (case SendToChannel get w e (index w) of
        Done w' \<Rightarrow> Some (w'\<lparr>poller := Polling\<rparr>)
      | Blocked \<Rightarrow> None
      | Panic x \<Rightarrow> Some (w\<lparr>logs := logs w @ [LogStartException], poller := Recovered\<rparr>))"

definition add_log :: "log_entry \<Rightarrow> world \<Rightarrow> world" where
  "add_log l w = w\<lparr>logs := logs w @ [l]\<rparr>"

text \<open>
  Lines 175 to 194: the event of one poll in mode 0. The sleep after
  \<open>ErrAllBrokersDown\<close> changes no state. With a message the goroutine goes on
  to \<open>SendToChannel\<close>.
\<close>

definition poll_mode :: "kafka_event option \<Rightarrow> world \<Rightarrow> world" where
  "poll_mode ev w =
     (case ev of
        None \<Rightarrow> w
      | Some (EvMessage e) \<Rightarrow> w\<lparr>poller := Sending e\<rparr>
      | Some (EvError c) \<Rightarrow> add_log LogConsumerError w
      | Some _ \<Rightarrow> add_log LogIgnoredConsumerError w)"

text \<open>Lines 200 to 217: one event of the events channel; the loop goes round afterwards.\<close>

definition event_mode :: "kafka_event \<Rightarrow> world \<Rightarrow> world" where
  "event_mode ev w =
     (case ev of
        EvAssignedPartitions \<Rightarrow>
          add_log LogAssignedPartitions w
            \<lparr>handle := (handle w)\<lparr>consumer := (consumer (handle w))
               \<lparr>Assign_calls := Suc (Assign_calls (consumer (handle w)))\<rparr>\<rparr>,
             poller := Polling\<rparr>
      | EvRevokedPartitions \<Rightarrow>
          add_log LogRevokedPartitions w
            \<lparr>handle := (handle w)\<lparr>consumer := (consumer (handle w))
               \<lparr>Unassign_calls := Suc (Unassign_calls (consumer (handle w)))\<rparr>\<rparr>,
             poller := Polling\<rparr>
      | EvMessage e \<Rightarrow> w\<lparr>poller := Sending e\<rparr>
      | EvPartitionEOF \<Rightarrow> add_log LogPartitionEOF w\<lparr>poller := Polling\<rparr>
      | EvError c \<Rightarrow> add_log LogConsumerError w\<lparr>poller := Polling\<rparr>
      | EvOther \<Rightarrow> add_log LogIgnoredConsumerError w\<lparr>poller := Polling\<rparr>)"

text \<open>
  Lines 161 to 226, one move of the goroutine; the reply is read only where
  the goroutine asks the transport. While subscribing, the goroutine retries
  after each failure and does not read \<open>isclose\<close>. At the head of the main
  loop it tests \<open>isclose\<close>; in mode 0 it polls, otherwise it enters the
  \<open>select\<close>, where a receive from \<open>exit\<close> needs a value in that channel (a nil
  channel never delivers). After \<open>wg.Done()\<close> it writes its last log line.
  \<open>None\<close>: the goroutine cannot move with this reply.
\<close>

definition poll_step :: "ring_get \<Rightarrow> reply \<Rightarrow> world \<Rightarrow> world option" where
  "poll_step get r w =
     (let h = handle w; p = heap w (param h)
      in case poller w of
           Subscribing \<Rightarrow>
             (case r of
                SubscribeTopics_result ok \<Rightarrow>
                  (let w1 = w\<lparr>handle := h\<lparr>consumer := (consumer h)
                               \<lparr>SubscribeTopics_calls :=
                                  SubscribeTopics_calls (consumer h) @ [Topic p]\<rparr>\<rparr>\<rparr>
                   in if ok then Some (w1\<lparr>poller := Polling, index := 0\<rparr>)
                      else Some (add_log LogSubscribeTopicsError w1))
              | _ \<Rightarrow> None)
         | Polling \<Rightarrow>
             if isclose h then Some (loop_exit w)
             else if ConsumerMode p = 0
             then (case r of Poll_result ev \<Rightarrow> Some (poll_mode ev w) | _ \<Rightarrow> None)
             else Some (w\<lparr>poller := Selecting\<rparr>)
         | Selecting \<Rightarrow>
             (case r of
                Select_exit \<Rightarrow>
                  (case exit h of
                     None \<Rightarrow> None
                   | Some c \<Rightarrow>
                       (case buf c of
                          [] \<Rightarrow> None
                        | x # xs \<Rightarrow>
                            Some (w\<lparr>handle := h\<lparr>exit := Some (c\<lparr>buf := xs\<rparr>)\<rparr>,
                                   poller := Polling\<rparr>)))
              | Select_event ev \<Rightarrow> Some (event_mode ev w)
              | _ \<Rightarrow> None)
         | Sending e \<Rightarrow> dispatch get e w
         | Exited \<Rightarrow> exit_line w
         | _ \<Rightarrow> None)"

subsection \<open>Start, Close and CommitMessage\<close>

text \<open>
  Lines 153 to 230: \<open>Start\<close> spawns the goroutine and returns nil. The model
  follows one such goroutine: \<open>None\<close> for a second call.
\<close>

definition Start :: "world \<Rightarrow> world option" where
  "Start w = (if poller w = NotStarted then Some (w\<lparr>poller := Subscribing\<rparr>) else None)"

text \<open>
  Lines 239 to 241: closing the queues in turn. A panic stops the loop; the
  queues closed before it stay closed.
\<close>

fun close_queues :: "nat list \<Rightarrow> Message chan list \<Rightarrow> panic option \<times> Message chan list" where
  "close_queues [] qs = (None, qs)"
| "close_queues (i # is) qs =
     (if length qs \<le> i then (Some IndexOutOfRange, qs)
      else (case chan_close (qs ! i) of
              Inl e \<Rightarrow> (Some e, qs)
            | Inr q \<Rightarrow> close_queues is (qs[i := q])))"

text \<open>
  Lines 232 to 244 in three moves: the flag; the send on \<open>exit\<close> in mode 1 and
  the log line; then, once the wait group is at zero, the queues and the
  transport. A call made after an earlier call has returned starts again at
  the flag. A panic while the queues are closed leaves the queues closed so
  far and ends the call. \<open>None\<close>: the call cannot move (a full or nil \<open>exit\<close>,
  a wait group above zero, or a call that has panicked). The model follows
  one call at a time.
\<close>

definition close_step :: "world \<Rightarrow> world option" where
  "close_step w =
     (let h = handle w; p = heap w (param h)
      in case closer w of
           NotCalled \<Rightarrow> Some (w\<lparr>handle := h\<lparr>isclose := True\<rparr>, closer := FlagSet\<rparr>)
         | Returned \<Rightarrow> Some (w\<lparr>handle := h\<lparr>isclose := True\<rparr>, closer := FlagSet\<rparr>)
         | FlagSet \<Rightarrow>
             if ConsumerMode p = 1
             then (case exit h of
                     None \<Rightarrow> None
                   | Some c \<Rightarrow>
                       (case chan_send 1 c of
                          Done c' \<Rightarrow>
                            Some (w\<lparr>handle := h\<lparr>exit := Some c'\<rparr>,
                                   logs := logs w @ [LogWaitClose], closer := Waiting\<rparr>)
                        | Blocked \<Rightarrow> None
                        | Panic e \<Rightarrow> Some (w\<lparr>closer := ClosePanicked\<rparr>)))
             else Some (w\<lparr>logs := logs w @ [LogWaitClose], closer := Waiting\<rparr>)
         | Waiting \<Rightarrow>
             if wg h = 0
             then (case close_queues [0..<nat (ThreadNum p)] (queuelist h) of
                     (Some e, qs) \<Rightarrow>
                       Some (w\<lparr>handle := h\<lparr>queuelist := qs\<rparr>, closer := ClosePanicked\<rparr>)
                   | (None, qs) \<Rightarrow>
                       Some (w\<lparr>handle := h\<lparr>queuelist := qs,
                                             consumer := (consumer h)\<lparr>Close_called := True\<rparr>\<rparr>,
                              logs := logs w @ [LogClosed], closer := Returned\<rparr>))
             else None
         | ClosePanicked \<Rightarrow> None)"

subsection \<open>Interleavings\<close>

text \<open>
  One atomic move of the system: a call of \<open>Start\<close>, an iteration of its
  goroutine with the transport's reply, a receive of a worker, a move of
  \<open>Close\<close>, or a call of the method \<open>CommitMessage\<close> (lines 246 to 249).
\<close>

datatype action =
    Call_Start
  | Poller reply
  | Worker nat
  | Call_Close
  | Call_CommitMessage Message

definition step :: "ring_get \<Rightarrow> action \<Rightarrow> world \<Rightarrow> world option" where
  "step get a w =
     (case a of
        Call_Start \<Rightarrow> Start w
      | Poller r \<Rightarrow> poll_step get r w
      | Worker i \<Rightarrow> worker_step i w
      | Call_Close \<Rightarrow> close_step w
      | Call_CommitMessage msg \<Rightarrow> Some (CommitMessage msg w))"

fun run :: "ring_get \<Rightarrow> action list \<Rightarrow> world \<Rightarrow> world option" where
  "run get [] w = Some w"
| "run get (a # as) w = (case step get a w of None \<Rightarrow> None | Some w' \<Rightarrow> run get as w')"

subsection \<open>Observations and concrete instances\<close>

text \<open>The \<open>ConsumerParam\<close> objects as the caller finds them when \<open>NewConsumer\<close> has returned.\<close>

fun heap_after :: "new_result \<Rightarrow> addr \<Rightarrow> ConsumerParam" where
  "heap_after (NewFailed hp l) = hp"
| "heap_after (Created w) = heap w"

text \<open>Constructing a consumer and then running a schedule on it.\<close>

definition run_new ::
  "(ConfigMap \<Rightarrow> kafka_Consumer option) \<Rightarrow> (addr \<Rightarrow> ConsumerParam) \<Rightarrow> addr \<Rightarrow>
   ring_get \<Rightarrow> action list \<Rightarrow> world option" where
  "run_new knew hp prm get as =
     (case NewConsumer knew 0 0 hp prm 0 of
        NewFailed hp' l \<Rightarrow> None
      | Created w \<Rightarrow> run get as w)"

text \<open>The handler invocations of worker \<open>i\<close> and the messages sent to its queue, in order.\<close>

definition calls_of :: "nat \<Rightarrow> world \<Rightarrow> Message list" where
  "calls_of i w = map snd (filter (\<lambda>c. fst c = i) (calls w))"

definition sent_to :: "nat \<Rightarrow> world \<Rightarrow> Message list" where
  "sent_to i w = map snd (filter (\<lambda>c. fst c = i) (sent w))"

text \<open>
  Instances for the examples: a transport that can be constructed, a lookup
  that honours the contract of \<open>Get\<close>, a handler that fails on the value
  \<open>bad\<close> and panics on the value \<open>boom\<close>, and a heap holding one
  configuration.
\<close>

definition fresh_client :: kafka_Consumer where
  "fresh_client =
     \<lparr>SubscribeTopics_calls = [], Commit_calls = 0, CommitMessage_calls = [],
      Assign_calls = 0, Unassign_calls = 0, Close_called = False\<rparr>"

definition kafka_up :: "ConfigMap \<Rightarrow> kafka_Consumer option" where
  "kafka_up cfg = Some fresh_client"

definition sample_Get :: ring_get where
  "sample_Get c k = (if c = [] then None else Some (c ! (length k mod length c)))"

definition sample_deal :: "Message \<Rightarrow> deal_outcome" where
  "sample_deal m =
     (if Value m = ''boom'' then DealPanic else if Value m = ''bad'' then DealError else DealOk)"

definition sample_param :: "int \<Rightarrow> int \<Rightarrow> int \<Rightarrow> ConsumerParam" where
  "sample_param cm acm n =
     \<lparr>Address = ''localhost:9092'', GroupId = ''group'', Topic = ''topic'',
      Dealhanle = sample_deal, ConsumerMode = cm, AutoCommitMode = acm, ThreadNum = n\<rparr>"

definition sample_heap :: "int \<Rightarrow> int \<Rightarrow> int \<Rightarrow> addr \<Rightarrow> ConsumerParam" where
  "sample_heap cm acm n a = sample_param cm acm n"

definition sample_msg :: "string \<Rightarrow> int32 \<Rightarrow> string \<Rightarrow> Message" where
  "sample_msg k p v = \<lparr>Key = k, Partition = p, Offset = 0, Value = v\<rparr>"

text \<open>
  The moves of the goroutine of \<open>Start\<close> for one message in mode 0: the poll
  that returns it, then the call of \<open>SendToChannel\<close>.
\<close>

definition deliver :: "Message \<Rightarrow> action list" where
  "deliver m = [Poller (Poll_result (Some (EvMessage m))), Poller (Poll_result None)]"

text \<open>The contents of the queues, by worker index.\<close>

definition bufs :: "world \<Rightarrow> Message list list" where
  "bufs w = map buf (queuelist (handle w))"

text \<open>
  A state in which one more message \<open>m\<close> can go round through worker \<open>i\<close> in
  poll mode with batched commits: the goroutine of \<open>Start\<close> is at the head
  of its loop and not asked to stop, the queue of worker \<open>i\<close> is empty and
  open, the worker is running, the handler accepts \<open>m\<close>, and \<open>m\<close> is routed
  to \<open>i\<close>.
\<close>

definition idle_for :: "ring_get \<Rightarrow> Message \<Rightarrow> nat \<Rightarrow> world \<Rightarrow> bool" where
  "idle_for get m i w =
     (let h = handle w; p = heap w (param h)
      in poller w = Polling \<and> \<not> isclose h \<and> ConsumerMode p = 0 \<and> AutoCommitMode p = 0 \<and>
         index w = 0 \<and> Dealhanle p m = DealOk \<and>
         i < length (queuelist h) \<and> i < length (workers w) \<and> workers w ! i \<and>
         queuelist h ! i = make_chan 2 \<and>
         (case route get (sis h) (ThreadNum p) m of
            Inl e \<Rightarrow> False
          | Inr modv \<Rightarrow> 0 \<le> sint modv \<and> nat (sint modv) = i))"

text \<open>The moves that take one message through worker \<open>i\<close>.\<close>

definition round_trip :: "Message \<Rightarrow> nat \<Rightarrow> action list" where
  "round_trip m i = deliver m @ [Worker i]"

text \<open>
  The worker index the dispatcher derives from a key alone: the ring's answer,
  parsed and converted as in lines 127 to 132. \<open>None\<close>: the dispatcher falls
  back to the partition.
\<close>

definition ring_index :: "ring_get \<Rightarrow> Consistent \<Rightarrow> string \<Rightarrow> nat option" where
  "ring_index get ring key =
     (case get ring key of
        None \<Rightarrow> None
      | Some modstr \<Rightarrow>
          (case Atoi modstr of
             None \<Rightarrow> None
           | Some convstr \<Rightarrow> Some (nat (sint (to_int32 convstr)))))"



section \<open>Properties\<close>

subsection \<open>The constructor\<close>

lemma fold_Add: "fold (\<lambda>i c. Add (g i) c) xs c0 = c0 @ map g xs"
  by (induction xs arbitrary: c0) (simp_all add: Add_def)

lemma new_ring_eq: "new_ring n = map (\<lambda>i. Sprintf_d (int i)) [0..<nat n]"
  by (simp add: new_ring_def fold_Add New_def)

lemma ring_51:
  "map (\<lambda>i. Sprintf_d (int i)) [0..<51] ! 0 = ''0'' \<and>
   map (\<lambda>i. Sprintf_d (int i)) [0..<51] ! 9 = ''9'' \<and>
   map (\<lambda>i. Sprintf_d (int i)) [0..<51] ! 10 = ''10'' \<and>
   map (\<lambda>i. Sprintf_d (int i)) [0..<51] ! 50 = ''50''"
  by code_simp

text \<open>
  C10. Whatever the configuration says, also its \<open>AutoCommitMode\<close>, the
  constructor hands the transport a configuration in which
  \<open>enable.auto.commit\<close> and \<open>enable.auto.offset.store\<close> are true, and keeps
  that configuration in the handle.
\<close>

theorem NewConsumer_config_auto_commit:
  "knew (new_config (hp prm) now pid i) = Some c \<Longrightarrow>
   (\<exists>w. NewConsumer knew now pid hp prm i = Created w \<and>
        knew (config (handle w)) = Some (consumer (handle w)) \<and>
        config (handle w) ''enable.auto.commit'' = Some (CBool True) \<and>
        config (handle w) ''enable.auto.offset.store'' = Some (CBool True))"
  by (simp add: NewConsumer_def Let_def new_config_def)

theorem NewConsumer_config_auto_commit_witness:
  "kafka_up (new_config (sample_heap 0 0 4 7) 0 0 0) = Some fresh_client \<and>
   (\<exists>w. NewConsumer kafka_up 0 0 (sample_heap 0 1 4) 7 0 = Created w \<and>
        kafka_up (config (handle w)) = Some (consumer (handle w)) \<and>
        config (handle w) ''enable.auto.commit'' = Some (CBool True) \<and>
        config (handle w) ''enable.auto.offset.store'' = Some (CBool True))"
  using NewConsumer_config_auto_commit [of kafka_up "sample_heap 0 1 4" 7 0 0 0 fresh_client]
  by (simp add: kafka_up_def)

text \<open>
  C7. When the transport can be constructed, the thread number in force is 51
  if the configured one is zero or negative and the configured one otherwise;
  the ring holds the decimal identifiers from 0 up to that number less one,
  and there are that many queues, each of capacity 2, empty and open, and
  that many running workers.
\<close>

theorem NewConsumer_worker_count:
  "knew (new_config (hp prm) now pid i) = Some c \<Longrightarrow>
   (\<exists>w n. NewConsumer knew now pid hp prm i = Created w \<and>
        n = (if ThreadNum (hp prm) \<le> 0 then 51 else ThreadNum (hp prm)) \<and>
        param (handle w) = prm \<and>
        ThreadNum (heap w prm) = n \<and>
        sis (handle w) = map (\<lambda>k. Sprintf_d (int k)) [0..<nat n] \<and>
        length (sis (handle w)) = nat n \<and>
        queuelist (handle w) = replicate (nat n) (make_chan 2) \<and>
        length (queuelist (handle w)) = nat n \<and>
        map cap (queuelist (handle w)) = replicate (nat n) 2 \<and>
        map buf (queuelist (handle w)) = replicate (nat n) [] \<and>
        map closed (queuelist (handle w)) = replicate (nat n) False \<and>
        workers w = replicate (nat n) True \<and>
        length (workers w) = nat n)"
  by (simp add: NewConsumer_def Let_def new_ring_eq make_chan_def)

theorem NewConsumer_worker_count_witness:
  "kafka_up (new_config (sample_heap 0 0 0 7) 0 0 0) = Some fresh_client \<and>
   (\<exists>w. NewConsumer kafka_up 0 0 (sample_heap 0 0 0) 7 0 = Created w \<and>
        ThreadNum (heap w 7) = 51 \<and>
        length (sis (handle w)) = 51 \<and>
        sis (handle w) ! 0 = ''0'' \<and> sis (handle w) ! 9 = ''9'' \<and>
        sis (handle w) ! 10 = ''10'' \<and> sis (handle w) ! 50 = ''50'' \<and>
        queuelist (handle w) = replicate 51 (make_chan 2) \<and>
        length (queuelist (handle w)) = 51 \<and>
        map cap (queuelist (handle w)) = replicate 51 2 \<and>
        workers w = replicate 51 True)"
  using NewConsumer_worker_count [of kafka_up "sample_heap 0 0 0" 7 0 0 0 fresh_client] ring_51
  by (auto simp add: kafka_up_def sample_heap_def sample_param_def)

subsection \<open>What the moves leave unchanged\<close>

lemma SendToChannel_DoneE:
  assumes "SendToChannel get w msg idx = Done w'"
  obtains modv q where
    "route get (sis (handle w)) (ThreadNum (heap w (param (handle w)))) msg = Inr modv"
    "0 \<le> sint modv" "sint modv < int (length (queuelist (handle w)))"
    "chan_send msg (queuelist (handle w) ! nat (sint modv)) = Done q"
    "w' = (let w1 = w\<lparr>handle := (handle w)\<lparr>queuelist := (queuelist (handle w))[nat (sint modv) := q]\<rparr>,
                      sent := sent w @ [(nat (sint modv), msg)]\<rparr>
           in if AutoCommitMode (heap w (param (handle w))) = 0
              then (if idx > 1000 then Commit w1 else w1)
              else if AutoCommitMode (heap w (param (handle w))) = 1
              then CommitMessage msg w1 else w1)"
  using assms
  unfolding SendToChannel_def SendToChannel_body_def Let_def
  by (auto split: sum.splits outcome.splits if_splits prod.splits)

lemma SendToChannel_frame:
  assumes "SendToChannel get w msg idx = Done w'"
  shows "heap w' = heap w" "param (handle w') = param (handle w)"
    "sis (handle w') = sis (handle w)" "isclose (handle w') = isclose (handle w)"
    "wg (handle w') = wg (handle w)" "exit (handle w') = exit (handle w)"
    "length (queuelist (handle w')) = length (queuelist (handle w))"
    "workers w' = workers w" "poller w' = poller w" "index w' = index w"
    "closer w' = closer w" "logs w' = logs w" "calls w' = calls w"
  using assms
  by (auto elim!: SendToChannel_DoneE simp: Let_def Commit_def CommitMessage_def split: if_splits)


lemma dispatch_frame:
  assumes "dispatch get e w = Some w'"
  shows "heap w' = heap w" "param (handle w') = param (handle w)"
    "sis (handle w') = sis (handle w)" "isclose (handle w') = isclose (handle w)"
    "wg (handle w') = wg (handle w)" "exit (handle w') = exit (handle w)"
    "length (queuelist (handle w')) = length (queuelist (handle w))"
    "workers w' = workers w" "index w' = index w"
    "closer w' = closer w" "calls w' = calls w"
  using assms
  by (auto simp: dispatch_def split: outcome.splits dest: SendToChannel_frame)

lemma close_queues_length:
  "close_queues is qs = (e, qs') \<Longrightarrow> length qs' = length qs"
  by (induction "is" arbitrary: qs) (auto split: if_splits sum.splits)

lemma poll_step_frame:
  assumes "poll_step get r w = Some w'"
  shows "heap w' = heap w" "param (handle w') = param (handle w)"
    "sis (handle w') = sis (handle w)" "isclose (handle w') = isclose (handle w)"
    "length (queuelist (handle w')) = length (queuelist (handle w))"
    "workers w' = workers w" "closer w' = closer w" "calls w' = calls w"
  using assms
  by (auto simp: poll_step_def Let_def loop_exit_def exit_line_def Commit_def poll_mode_def
        event_mode_def add_log_def
      split: poll_pc.splits reply.splits if_splits option.splits list.splits kafka_event.splits
      dest: dispatch_frame)

lemma worker_step_frame:
  assumes "worker_step i w = Some w'"
  shows "heap w' = heap w" "param (handle w') = param (handle w)"
    "sis (handle w') = sis (handle w)" "isclose (handle w') = isclose (handle w)"
    "length (queuelist (handle w')) = length (queuelist (handle w))"
    "length (workers w') = length (workers w)" "closer w' = closer w" "sent w' = sent w"
    "poller w' = poller w" "index w' = index w" "consumer (handle w') = consumer (handle w)"
    "wg (handle w') = wg (handle w)"
  using assms
  by (auto simp: worker_step_def Let_def split: if_splits list.splits deal_outcome.splits)

lemma close_step_frame:
  assumes "close_step w = Some w'"
  shows "heap w' = heap w" "param (handle w') = param (handle w)"
    "sis (handle w') = sis (handle w)"
    "length (queuelist (handle w')) = length (queuelist (handle w))"
    "workers w' = workers w" "sent w' = sent w" "calls w' = calls w"
    "poller w' = poller w" "index w' = index w"
    "wg (handle w') = wg (handle w)"
  using assms
  by (auto simp: close_step_def Let_def
      split: close_pc.splits if_splits option.splits outcome.splits prod.splits
      dest: close_queues_length)

lemma step_frame:
  assumes "step get a w = Some w'"
  shows "heap w' = heap w" "param (handle w') = param (handle w)"
    "sis (handle w') = sis (handle w)"
    "length (queuelist (handle w')) = length (queuelist (handle w))"
    "length (workers w') = length (workers w)"
  using assms
  by (auto simp: step_def Start_def CommitMessage_def split: action.splits if_splits
      dest: poll_step_frame worker_step_frame close_step_frame)

lemma run_frame:
  "run get as w = Some w' \<Longrightarrow>
   heap w' = heap w \<and> param (handle w') = param (handle w) \<and>
   sis (handle w') = sis (handle w) \<and>
   length (queuelist (handle w')) = length (queuelist (handle w)) \<and>
   length (workers w') = length (workers w)"
proof (induction as arbitrary: w)
  case Nil
  then show ?case by simp
next
  case (Cons a as)
  then obtain w1 where s: "step get a w = Some w1" and r: "run get as w1 = Some w'"
    by (auto split: option.splits)
  from Cons.IH [OF r] step_frame [OF s] show ?case by simp
qed

text \<open>
  C8, as the claim states it, fails: a configuration with thread number 0
  comes back from the constructor with thread number 51.
\<close>

theorem NewConsumer_writes_ThreadNum:
  "ThreadNum (sample_heap 0 0 0 7) = 0 \<and>
   ThreadNum (heap_after (NewConsumer kafka_up 0 0 (sample_heap 0 0 0) 7 0) 7) = 51"
  by (simp add: NewConsumer_def kafka_up_def sample_heap_def sample_param_def)

text \<open>
  C8, amended. The constructor writes the caller's configuration in one case
  only: when the transport was constructed and the thread number is zero or
  negative, the field \<open>ThreadNum\<close> of that object becomes 51. No other
  object and no other field is written, and no later move of the consumer
  (\<open>Start\<close> and its goroutine, the workers, \<open>Close\<close>, \<open>CommitMessage\<close>) writes
  any configuration object.
\<close>

theorem param_written_only_for_default:
  "heap_after (NewConsumer knew now pid hp prm i) =
     (if knew (new_config (hp prm) now pid i) = None \<or> 0 < ThreadNum (hp prm) then hp
      else hp(prm := (hp prm)\<lparr>ThreadNum := 51\<rparr>)) \<and>
   (run get as w = Some w' \<longrightarrow> heap w' = heap w)"
  by (auto simp: NewConsumer_def Let_def dest: run_frame split: option.splits)

lemma sample_run_defined:
  "\<not> Option.is_none (run_new kafka_up (sample_heap 0 0 4) 7 sample_Get
     [Call_Start, Poller (SubscribeTopics_result False), Poller (SubscribeTopics_result True),
      Poller (Poll_result (Some (EvMessage (sample_msg [] 1 ''x'')))), Poller (Poll_result None),
      Worker 1, Call_CommitMessage (sample_msg [] 1 ''x''), Call_Close, Call_Close,
      Poller (Poll_result None), Call_Close])"
  by code_simp

theorem param_written_only_for_default_witness:
  "heap_after (NewConsumer kafka_up 0 0 (sample_heap 0 0 4) 7 0) = sample_heap 0 0 4 \<and>
   heap_after (NewConsumer kafka_up 0 0 (sample_heap 0 0 0) 7 0) =
     (sample_heap 0 0 0)(7 := (sample_heap 0 0 0 7)\<lparr>ThreadNum := 51\<rparr>) \<and>
   (\<exists>w. run_new kafka_up (sample_heap 0 0 4) 7 sample_Get
     [Call_Start, Poller (SubscribeTopics_result False), Poller (SubscribeTopics_result True),
      Poller (Poll_result (Some (EvMessage (sample_msg [] 1 ''x'')))), Poller (Poll_result None),
      Worker 1, Call_CommitMessage (sample_msg [] 1 ''x''), Call_Close, Call_Close,
      Poller (Poll_result None), Call_Close] = Some w \<and> heap w = sample_heap 0 0 4)"
proof -
  let ?as = "[Call_Start, Poller (SubscribeTopics_result False), Poller (SubscribeTopics_result True),
      Poller (Poll_result (Some (EvMessage (sample_msg [] 1 ''x'')))), Poller (Poll_result None),
      Worker 1, Call_CommitMessage (sample_msg [] 1 ''x''), Call_Close, Call_Close,
      Poller (Poll_result None), Call_Close]"
  have a: "heap_after (NewConsumer kafka_up 0 0 (sample_heap 0 0 4) 7 0) = sample_heap 0 0 4"
    using param_written_only_for_default [of kafka_up 0 0 "sample_heap 0 0 4" 7 0]
    by (simp add: kafka_up_def sample_heap_def sample_param_def)
  have b: "heap_after (NewConsumer kafka_up 0 0 (sample_heap 0 0 0) 7 0) =
     (sample_heap 0 0 0)(7 := (sample_heap 0 0 0 7)\<lparr>ThreadNum := 51\<rparr>)"
    using param_written_only_for_default [of kafka_up 0 0 "sample_heap 0 0 0" 7 0]
    by (simp add: kafka_up_def sample_heap_def sample_param_def)
  obtain w0 where w0: "NewConsumer kafka_up 0 0 (sample_heap 0 0 4) 7 0 = Created w0"
    by (simp add: NewConsumer_def kafka_up_def sample_heap_def sample_param_def)
  from sample_run_defined obtain w where r: "run sample_Get ?as w0 = Some w"
    by (auto simp: run_new_def w0 Option.is_none_def)
  from a w0 have "heap w0 = sample_heap 0 0 4" by simp
  with param_written_only_for_default [of _ _ _ _ _ _ sample_Get ?as w0 w] r
  have "heap w = sample_heap 0 0 4" by simp
  with r w0 have "run_new kafka_up (sample_heap 0 0 4) 7 sample_Get ?as = Some w \<and>
      heap w = sample_heap 0 0 4"
    by (simp add: run_new_def)
  with a b show ?thesis by blast
qed

subsection \<open>Decimal identifiers and 32-bit conversions\<close>

lemma is_digit_digit_char: "d < 10 \<Longrightarrow> is_digit (digit_char d)"
  by (simp add: is_digit_def digit_char_def)

lemma digit_val_digit_char: "d < 10 \<Longrightarrow> digit_val (digit_char d) = d"
  by (simp add: digit_val_def digit_char_def)

lemma parse_digits_append:
  "parse_digits (xs @ ys) a =
     (case parse_digits xs a of None \<Rightarrow> None | Some b \<Rightarrow> parse_digits ys b)"
  by (induction xs arbitrary: a) simp_all

lemma parse_digits_dec_nat: "parse_digits (dec_nat k) 0 = Some k"
proof (induction k rule: dec_nat.induct)
  case (1 n)
  show ?case
  proof (cases "n < 10")
    case True
    then show ?thesis
      by (subst dec_nat.simps) (simp add: is_digit_digit_char digit_val_digit_char)
  next
    case False
    with 1 have "parse_digits (dec_nat (n div 10)) 0 = Some (n div 10)" by simp
    with False show ?thesis
      by (subst dec_nat.simps)
         (simp add: parse_digits_append is_digit_digit_char digit_val_digit_char)
  qed
qed

lemma dec_nat_digits: "c \<in> set (dec_nat k) \<Longrightarrow> is_digit c"
proof (induction k rule: dec_nat.induct)
  case (1 n)
  show ?case
  proof (cases "n < 10")
    case True
    with 1(2) show ?thesis
      by (subst (asm) dec_nat.simps) (simp add: is_digit_digit_char)
  next
    case False
    with 1 show ?thesis
      by (subst (asm) (2) dec_nat.simps) (auto simp: is_digit_digit_char)
  qed
qed

lemma dec_nat_not_Nil: "dec_nat k \<noteq> []"
  by (subst dec_nat.simps) simp

lemma Atoi_Sprintf_d:
  assumes "0 \<le> i" "i < 2 ^ 63"
  shows "Atoi (Sprintf_d i) = Some i"
proof -
  obtain c cs where s: "dec_nat (nat i) = c # cs"
    using dec_nat_not_Nil [of "nat i"] by (cases "dec_nat (nat i)") auto
  then have "is_digit c" using dec_nat_digits [of c "nat i"] by simp
  then have c: "c \<noteq> CHR ''-''" "c \<noteq> CHR ''+''"
    by (auto simp: is_digit_def)
  have p: "parse_digits (c # cs) 0 = Some (nat i)"
    using parse_digits_dec_nat [of "nat i"] s by simp
  from assms c p show ?thesis
    unfolding Atoi_def Sprintf_d_def s Let_def
    by (simp add: s del: parse_digits.simps)
qed

lemma sint_to_int32: "- (2 ^ 31) \<le> x \<Longrightarrow> x < 2 ^ 31 \<Longrightarrow> sint (to_int32 x) = x"
  unfolding to_int32_def
  by (simp add: sint_sbintrunc' signed_take_bit_int_eq_self)

lemma to_int32_eq_0: "0 < n \<Longrightarrow> n \<le> 2 ^ 31 \<Longrightarrow> to_int32 n \<noteq> 0"
  unfolding to_int32_def
  by (simp add: word_of_int_eq_0_iff zdvd_not_zless)

lemma sint_int32_bounds: "- (2 ^ 31) \<le> sint (x :: int32)" "sint (x :: int32) < 2 ^ 31"
  using sint_ge [of x] sint_lt [of x] by simp_all

subsection \<open>The destination of a message\<close>

lemma go_rem_nonneg: "0 \<le> a \<Longrightarrow> go_rem a b = a mod \<bar>b\<bar>"
  by (cases "a = 0") (simp_all add: go_rem_def)

lemma route_keyless:
  assumes "Key msg = []" "0 \<le> sint (Partition msg)" "0 < n" "n \<le> 2 ^ 31"
  shows "\<exists>modv. route get ring n msg = Inr modv \<and> sint modv = sint (Partition msg) mod n"
proof -
  let ?p = "sint (Partition msg)"
  have pb: "?p < 2 ^ 31" using sint_int32_bounds(2) [of "Partition msg"] .
  have nz: "to_int32 n \<noteq> 0" using assms by (rule_tac to_int32_eq_0)
  have r: "go_rem ?p (sint (to_int32 n)) = ?p mod n"
  proof (cases "n < 2 ^ 31")
    case True
    with assms have "sint (to_int32 n) = n" by (simp add: sint_to_int32)
    with assms show ?thesis by (simp add: go_rem_nonneg)
  next
    case False
    with assms have n: "n = 2 ^ 31" by simp
    have "sint (to_int32 (2 ^ 31)) = - (2 ^ 31)" by (simp add: to_int32_def)
    with n assms pb show ?thesis by (simp add: go_rem_nonneg)
  qed
  have "0 \<le> ?p mod n" "?p mod n < 2 ^ 31"
    using assms pb by (auto intro: order.strict_trans1 [OF zmod_le_nonneg_dividend])
  then have "sint (word_of_int (?p mod n) :: int32) = ?p mod n"
    using sint_to_int32 [of "?p mod n"] by (simp add: to_int32_def)
  with nz r assms(1) show ?thesis
    by (simp add: route_def)
qed

lemma route_keyed:
  "Key msg \<noteq> [] \<Longrightarrow> get ring (Key msg) = Some s \<Longrightarrow> Atoi s = Some v \<Longrightarrow>
   route get ring n msg = Inr (to_int32 v)"
  by (simp add: route_def)

lemma route_fallback:
  "Key msg = [] \<or> get ring (Key msg) = None \<or>
     (\<exists>s. get ring (Key msg) = Some s \<and> Atoi s = None) \<Longrightarrow>
   route get ring n msg =
     (if to_int32 n = 0 then Inl DivideByZero
      else Inr (word_of_int (go_rem (sint (Partition msg)) (sint (to_int32 n)))))"
  by (cases "Key msg = []") (auto simp: route_def Let_def)

lemma get_new_ring:
  assumes "ring_contract get" "0 < n"
  shows "\<exists>k<nat n. get (new_ring n) key = Some (Sprintf_d (int k))"
proof -
  from assms(2) have "new_ring n \<noteq> []" by (simp add: new_ring_eq)
  with assms(1) obtain m where "m \<in> set (new_ring n)" "get (new_ring n) key = Some m"
    unfolding ring_contract_def by blast
  then show ?thesis by (auto simp: new_ring_eq)
qed

lemma route_new_ring:
  assumes "ring_contract get" "0 < n" "n < 2 ^ 63" "Key msg \<noteq> []"
  shows "\<exists>k<nat n. get (new_ring n) (Key msg) = Some (Sprintf_d (int k)) \<and>
           route get (new_ring n) n msg = Inr (to_int32 (int k))"
proof -
  from get_new_ring [OF assms(1,2)] obtain k
    where k: "k < nat n" "get (new_ring n) (Key msg) = Some (Sprintf_d (int k))" by blast
  with assms(3) have "Atoi (Sprintf_d (int k)) = Some (int k)"
    by (intro Atoi_Sprintf_d) auto
  with k assms(4) show ?thesis by (auto simp: route_keyed)
qed

lemma route_new_ring_bounds:
  assumes "ring_contract get" "0 < n" "n \<le> 2 ^ 31" "Key msg \<noteq> []"
  shows "\<exists>modv. route get (new_ring n) n msg = Inr modv \<and> 0 \<le> sint modv \<and> sint modv < n"
proof -
  from assms(3) have "n < 2 ^ 63" by simp
  from route_new_ring [OF assms(1,2) this assms(4)] obtain k where
    k: "k < nat n" "route get (new_ring n) n msg = Inr (to_int32 (int k))" by blast
  with assms(3) have "sint (to_int32 (int k)) = int k"
    by (intro sint_to_int32) auto
  with k show ?thesis by auto
qed

lemma ring_contract_sample_Get: "ring_contract sample_Get"
  by (auto simp: ring_contract_def sample_Get_def)

lemma SendToChannel_sent:
  assumes "SendToChannel get w msg idx = Done w'"
    and "route get (sis (handle w)) (ThreadNum (heap w (param (handle w)))) msg = Inr modv"
  shows "sent w' = sent w @ [(nat (sint modv), msg)]"
  using assms
  by (auto elim!: SendToChannel_DoneE simp: Let_def Commit_def CommitMessage_def split: if_splits)

text \<open>
  C6, as the claim states it, fails for thread numbers beyond \<open>int32\<close>: with
  thread number \<open>2^32 + 1\<close> the divisor \<open>int32(ThreadNum)\<close> is 1, and a keyless
  message of partition 1 goes to index 0 and not to 1.
\<close>

theorem keyless_route_wraps:
  "Key (sample_msg [] 1 ''x'') = [] \<and>
   route sample_Get [] 4294967297 (sample_msg [] 1 ''x'') = Inr 0 \<and>
   sint (Partition (sample_msg [] 1 ''x'')) mod 4294967297 = 1"
  by code_simp

text \<open>
  C6, amended. For a keyless message with a partition \<open>p\<close> that is not
  negative and a thread number \<open>n\<close> with \<open>0 < n\<close> and \<open>n \<le> 2^31\<close>, the
  destination is \<open>p mod n\<close>, and a completed \<open>SendToChannel\<close> records the send
  to that queue. With thread number 4, eight keyless messages of partitions
  0, 1, 2, 3, 0, 1, 2, 3 are sent to the queues 0, 1, 2, 3, 0, 1, 2, 3 in
  that order.
\<close>

theorem keyless_destination:
  "(Key msg = [] \<and> 0 \<le> sint (Partition msg) \<and> 0 < n \<and> n \<le> 2 ^ 31 \<longrightarrow>
      (\<exists>modv. route get ring n msg = Inr modv \<and> sint modv = sint (Partition msg) mod n) \<and>
      (\<forall>w w' idx. ThreadNum (heap w (param (handle w))) = n \<and>
           SendToChannel get w msg idx = Done w' \<longrightarrow>
           sent w' = sent w @ [(nat (sint (Partition msg) mod n), msg)])) \<and>
   map_option (\<lambda>w. map fst (sent w))
     (run_new kafka_up (sample_heap 0 2 4) 7 sample_Get
        (Call_Start # Poller (SubscribeTopics_result True) #
         concat (map (\<lambda>p. deliver (sample_msg [] p ''x'')) [0, 1, 2, 3, 0, 1, 2, 3]))) =
     Some [0, 1, 2, 3, 0, 1, 2, 3]"
proof -
  have scenario: "map_option (\<lambda>w. map fst (sent w))
     (run_new kafka_up (sample_heap 0 2 4) 7 sample_Get
        (Call_Start # Poller (SubscribeTopics_result True) #
         concat (map (\<lambda>p. deliver (sample_msg [] p ''x'')) [0, 1, 2, 3, 0, 1, 2, 3]))) =
     Some [0, 1, 2, 3, 0, 1, 2, 3]"
    by code_simp
  have general: "(\<exists>modv. route get ring n msg = Inr modv \<and> sint modv = sint (Partition msg) mod n) \<and>
      (\<forall>w w' idx. ThreadNum (heap w (param (handle w))) = n \<and>
           SendToChannel get w msg idx = Done w' \<longrightarrow>
           sent w' = sent w @ [(nat (sint (Partition msg) mod n), msg)])"
    if h: "Key msg = []" "0 \<le> sint (Partition msg)" "0 < n" "n \<le> 2 ^ 31"
  proof (intro conjI allI impI)
    show "\<exists>modv. route get ring n msg = Inr modv \<and> sint modv = sint (Partition msg) mod n"
      using h by (rule route_keyless)
  next
    fix w w' idx
    assume a: "ThreadNum (heap w (param (handle w))) = n \<and> SendToChannel get w msg idx = Done w'"
    from route_keyless [OF h, of get "sis (handle w)"] obtain modv where
      "route get (sis (handle w)) n msg = Inr modv" "sint modv = sint (Partition msg) mod n"
      by blast
    with a SendToChannel_sent [of get w msg idx w' modv]
    show "sent w' = sent w @ [(nat (sint (Partition msg) mod n), msg)]" by simp
  qed
  from scenario general show ?thesis by blast
qed

theorem keyless_destination_witness:
  "Key (sample_msg [] 6 ''x'') = [] \<and> 0 \<le> sint (Partition (sample_msg [] 6 ''x'')) \<and>
   (0::int) < 4 \<and> (4::int) \<le> 2 ^ 31 \<and>
   (\<exists>modv. route sample_Get (new_ring 4) 4 (sample_msg [] 6 ''x'') = Inr modv \<and> sint modv = 2)"
  using keyless_destination [of "sample_msg [] 6 ''x''" 4 sample_Get "new_ring 4"]
  by (simp add: sample_msg_def)

subsection \<open>Runs and the cases of a move\<close>

lemma run_append:
  "run get (as @ bs) w = (case run get as w of None \<Rightarrow> None | Some w1 \<Rightarrow> run get bs w1)"
  by (induction as arbitrary: w) (auto split: option.splits)

lemma run_invariant:
  assumes "\<And>a w w'. P w \<Longrightarrow> step get a w = Some w' \<Longrightarrow> P w'"
    and "P w" and "run get as w = Some w'"
  shows "P w'"
  using assms(2,3)
proof (induction as arbitrary: w)
  case Nil
  then show ?case by simp
next
  case (Cons a as)
  then obtain w1 where s: "step get a w = Some w1" and r: "run get as w1 = Some w'"
    by (auto split: option.splits)
  from assms(1) [OF Cons.prems(1) s] r show ?case by (rule Cons.IH)
qed

lemma poll_stepE:
  assumes "poll_step get r w = Some w'"
  obtains
    (subscribe) ok where "poller w = Subscribing" "r = SubscribeTopics_result ok"
      "w' = (let w1 = w\<lparr>handle := (handle w)\<lparr>consumer := (consumer (handle w))
                 \<lparr>SubscribeTopics_calls := SubscribeTopics_calls (consumer (handle w)) @
                     [Topic (heap w (param (handle w)))]\<rparr>\<rparr>\<rparr>
             in if ok then w1\<lparr>poller := Polling, index := 0\<rparr>
                else add_log LogSubscribeTopicsError w1)"
  | (leave) "poller w = Polling" "isclose (handle w)" "w' = loop_exit w"
  | (poll) ev where "poller w = Polling" "\<not> isclose (handle w)"
      "ConsumerMode (heap w (param (handle w))) = 0" "r = Poll_result ev" "w' = poll_mode ev w"
  | (enter) "poller w = Polling" "\<not> isclose (handle w)"
      "ConsumerMode (heap w (param (handle w))) \<noteq> 0" "w' = w\<lparr>poller := Selecting\<rparr>"
  | (signal) c x xs where "poller w = Selecting" "r = Select_exit" "exit (handle w) = Some c"
      "buf c = x # xs"
      "w' = w\<lparr>handle := (handle w)\<lparr>exit := Some (c\<lparr>buf := xs\<rparr>)\<rparr>, poller := Polling\<rparr>"
  | (event) ev where "poller w = Selecting" "r = Select_event ev" "w' = event_mode ev w"
  | (send) e where "poller w = Sending e" "dispatch get e w = Some w'"
  | (last_line) "poller w = Exited" "\<not> exit_logged w"
      "w' = w\<lparr>logs := logs w @ [LogStartIsExit], exit_logged := True\<rparr>"
proof (cases "poller w")
  case Subscribing
  with assms subscribe show ?thesis
    by (cases r) (simp_all add: poll_step_def Let_def split: if_splits)
next
  case Polling
  with assms leave poll enter show ?thesis
    by (cases r) (auto simp: poll_step_def Let_def split: if_splits)
next
  case Selecting
  with assms signal event show ?thesis
    by (cases r) (auto simp: poll_step_def Let_def split: option.splits list.splits)
next
  case (Sending e)
  with assms send show ?thesis by (simp add: poll_step_def Let_def)
next
  case Exited
  with assms last_line show ?thesis
    by (simp add: poll_step_def Let_def exit_line_def split: if_splits)
qed (use assms in \<open>simp_all add: poll_step_def Let_def\<close>)


lemma worker_stepE:
  assumes "worker_step i w = Some w'"
  obtains
    (finish) "i < length (workers w)" "i < length (queuelist (handle w))" "workers w ! i"
      "buf (queuelist (handle w) ! i) = []" "closed (queuelist (handle w) ! i)"
      "w' = w\<lparr>logs := logs w @ [LogDealChanClosed i], workers := (workers w)[i := False]\<rparr>"
  | (deal) msg rest where "i < length (workers w)" "i < length (queuelist (handle w))"
      "workers w ! i" "buf (queuelist (handle w) ! i) = msg # rest"
      "Dealhanle (heap w (param (handle w))) msg \<noteq> DealPanic"
      "w' = w\<lparr>handle := (handle w)\<lparr>queuelist :=
                 (queuelist (handle w))[i := (queuelist (handle w) ! i)\<lparr>buf := rest\<rparr>]\<rparr>,
               calls := calls w @ [(i, msg)]\<rparr>"
  | (recover) msg rest where "i < length (workers w)" "i < length (queuelist (handle w))"
      "workers w ! i" "buf (queuelist (handle w) ! i) = msg # rest"
      "Dealhanle (heap w (param (handle w))) msg = DealPanic"
      "w' = w\<lparr>handle := (handle w)\<lparr>queuelist :=
                 (queuelist (handle w))[i := (queuelist (handle w) ! i)\<lparr>buf := rest\<rparr>]\<rparr>,
               calls := calls w @ [(i, msg)],
               logs := logs w @ [LogDealChanException i],
               workers := (workers w)[i := False]\<rparr>"
proof (cases "buf (queuelist (handle w) ! i)")
  case Nil
  with assms finish show ?thesis
    by (auto simp: worker_step_def Let_def split: if_splits)
next
  case (Cons msg rest)
  show ?thesis
  proof (cases "Dealhanle (heap w (param (handle w))) msg = DealPanic")
    case True
    with assms Cons recover show ?thesis
      by (auto simp: worker_step_def Let_def split: if_splits)
  next
    case False
    with assms Cons deal [of msg rest] show ?thesis
      by (cases "Dealhanle (heap w (param (handle w))) msg")
         (auto simp: worker_step_def Let_def split: if_splits)
  qed
qed

subsection \<open>Bulk commits in batched-manual mode\<close>

text \<open>
  Inside \<open>SendToChannel\<close> the copy of \<open>index\<close> is counted as the code writes
  it: a commit and a reset when the value on entry is above 1000, then the
  increment.
\<close>

lemma SendToChannel_body_counter:
  assumes "SendToChannel_body get w msg idx = Done (w', idx')"
    "AutoCommitMode (heap w (param (handle w))) = 0"
  shows "idx' = (if idx > 1000 then 1 else idx + 1)"
    "Commit_calls (consumer (handle w')) =
       Commit_calls (consumer (handle w)) + (if idx > 1000 then 1 else 0)"
  using assms
  unfolding SendToChannel_body_def Let_def
  by (auto simp: Commit_def split: sum.splits outcome.splits if_splits)

lemma SendToChannel_no_commit:
  assumes "SendToChannel get w msg idx = Done w'" "idx \<le> 1000"
    "AutoCommitMode (heap w (param (handle w))) = 0"
  shows "Commit_calls (consumer (handle w')) = Commit_calls (consumer (handle w))"
  using assms
  by (auto elim!: SendToChannel_DoneE simp: Let_def)

lemma dispatch_commits:
  assumes "dispatch get e w = Some w'" "index w = 0"
    "AutoCommitMode (heap w (param (handle w))) = 0"
  shows "Commit_calls (consumer (handle w')) = Commit_calls (consumer (handle w))"
    "poller w' \<noteq> Exited"
proof -
  show "Commit_calls (consumer (handle w')) = Commit_calls (consumer (handle w))"
  proof (cases "SendToChannel get w e (index w)")
    case (Done w1)
    with assms SendToChannel_no_commit [of get w e 0 w1] show ?thesis
      by (auto simp: dispatch_def)
  qed (use assms in \<open>auto simp: dispatch_def\<close>)
  show "poller w' \<noteq> Exited"
    using assms by (auto simp: dispatch_def split: outcome.splits)
qed

lemma poll_mode_frame:
  "handle (poll_mode ev w) = handle w" "index (poll_mode ev w) = index w"
  "poller (poll_mode ev w) \<noteq> Exited \<or> poller w = Exited"
  "heap (poll_mode ev w) = heap w"
  by (auto simp: poll_mode_def add_log_def split: option.splits kafka_event.splits)

lemma event_mode_frame:
  "Commit_calls (consumer (handle (event_mode ev w))) = Commit_calls (consumer (handle w))"
  "index (event_mode ev w) = index w" "poller (event_mode ev w) \<noteq> Exited"
  "heap (event_mode ev w) = heap w"
  by (auto simp: event_mode_def add_log_def split: kafka_event.splits)

lemma poll_step_commits:
  assumes "poll_step get r w = Some w'" "index w = 0"
    "AutoCommitMode (heap w (param (handle w))) = 0"
  shows "Commit_calls (consumer (handle w')) =
         Commit_calls (consumer (handle w)) +
           (if poller w' = Exited \<and> poller w \<noteq> Exited then 1 else 0)"
    and "poller w = Exited \<longrightarrow> poller w' = Exited" and "index w' = 0"
proof -
  show "Commit_calls (consumer (handle w')) =
         Commit_calls (consumer (handle w)) +
           (if poller w' = Exited \<and> poller w \<noteq> Exited then 1 else 0)"
    using assms(1)
  proof (cases rule: poll_stepE)
    case (send e)
    with assms dispatch_commits [of get e w w'] show ?thesis by simp
  next
    case (poll ev)
    with poll_mode_frame [of ev w] show ?thesis by auto
  next
    case (event ev)
    with event_mode_frame [of ev w] show ?thesis by simp
  qed (use assms in \<open>auto simp: Let_def add_log_def loop_exit_def Commit_def\<close>)
  show "poller w = Exited \<longrightarrow> poller w' = Exited"
    using assms(1) by (cases rule: poll_stepE) auto
  show "index w' = 0"
    using assms(1)
  proof (cases rule: poll_stepE)
    case (send e)
    with assms dispatch_frame [of get e w w'] show ?thesis by simp
  next
    case (poll ev)
    with assms poll_mode_frame [of ev w] show ?thesis by auto
  next
    case (event ev)
    with assms event_mode_frame [of ev w] show ?thesis by simp
  qed (use assms in \<open>auto simp: Let_def add_log_def loop_exit_def Commit_def\<close>)
qed

lemma close_step_commits:
  assumes "close_step w = Some w'"
  shows "Commit_calls (consumer (handle w')) = Commit_calls (consumer (handle w))"
  using assms
  by (auto simp: close_step_def Let_def
      split: close_pc.splits if_splits option.splits outcome.splits prod.splits)

lemma step_commits:
  assumes "step get a w = Some w'" "index w = 0"
    "AutoCommitMode (heap w (param (handle w))) = 0"
  shows "Commit_calls (consumer (handle w')) =
         Commit_calls (consumer (handle w)) +
           (if poller w' = Exited \<and> poller w \<noteq> Exited then 1 else 0) \<and>
         index w' = 0 \<and> (poller w = Exited \<longrightarrow> poller w' = Exited)"
proof (cases a)
  case (Poller r)
  with assms poll_step_commits [of get r w w'] show ?thesis by (simp add: step_def)
next
  case (Worker i)
  with assms worker_step_frame [of i w w'] show ?thesis by (simp add: step_def)
next
  case Call_Close
  with assms have c: "close_step w = Some w'" by (simp add: step_def)
  from close_step_commits [OF c] close_step_frame(1,2,8,9) [OF c] assms(2)
  show ?thesis by simp
next
  case Call_Start
  with assms show ?thesis by (auto simp: step_def Start_def split: if_splits)
next
  case (Call_CommitMessage m)
  with assms show ?thesis by (auto simp: step_def CommitMessage_def)
qed

lemma run_commits:
  "run get as w = Some w' \<Longrightarrow> index w = 0 \<Longrightarrow>
   AutoCommitMode (heap w (param (handle w))) = 0 \<Longrightarrow>
   Commit_calls (consumer (handle w')) =
     Commit_calls (consumer (handle w)) +
       (if poller w' = Exited \<and> poller w \<noteq> Exited then 1 else 0) \<and>
   (poller w = Exited \<longrightarrow> poller w' = Exited)"
proof (induction as arbitrary: w)
  case Nil
  then show ?case by simp
next
  case (Cons a as)
  then obtain w1 where s: "step get a w = Some w1" and r: "run get as w1 = Some w'"
    by (auto split: option.splits)
  note st = step_commits [OF s Cons.prems(2,3)]
  from st have i1: "index w1 = 0" by simp
  from step_frame(1,2) [OF s] Cons.prems(3)
  have a1: "AutoCommitMode (heap w1 (param (handle w1))) = 0" by simp
  note ih = Cons.IH [OF r i1 a1]
  show ?case
  proof (cases "poller w = Exited")
    case True
    with st ih show ?thesis by simp
  next
    case False
    with st ih show ?thesis by (cases "poller w1 = Exited") simp_all
  qed
qed

lemma round_trip_once:
  assumes "idle_for get m i w"
  shows "\<exists>w1. run get (round_trip m i) w = Some w1 \<and> idle_for get m i w1 \<and>
           length (sent w1) = Suc (length (sent w)) \<and>
           length (calls w1) = Suc (length (calls w))"
proof -
  let ?h = "handle w" and ?p = "heap w (param (handle w))"
  from assms obtain modv where
    r: "route get (sis ?h) (ThreadNum ?p) m = Inr modv" "0 \<le> sint modv" "nat (sint modv) = i"
    by (auto simp: idle_for_def Let_def split: sum.splits)
  from assms have f: "poller w = Polling" "\<not> isclose ?h" "ConsumerMode ?p = 0"
    "AutoCommitMode ?p = 0" "index w = 0" "Dealhanle ?p m = DealOk"
    "i < length (queuelist ?h)" "i < length (workers w)" "workers w ! i"
    "queuelist ?h ! i = make_chan 2"
    by (simp_all add: idle_for_def Let_def)
  let ?w1 = "w\<lparr>poller := Sending m\<rparr>"
  have s1: "step get (Poller (Poll_result (Some (EvMessage m)))) w = Some ?w1"
    using f by (simp add: step_def poll_step_def Let_def poll_mode_def)
  let ?q = "(make_chan 2 :: Message chan)\<lparr>buf := [m]\<rparr>"
  let ?w2 = "w\<lparr>handle := ?h\<lparr>queuelist := (queuelist ?h)[i := ?q]\<rparr>,
               sent := sent w @ [(i, m)], poller := Polling\<rparr>"
  have lt: "sint modv < int (length (queuelist ?h))"
    using r f(7) by linarith
  have s2: "step get (Poller (Poll_result None)) ?w1 = Some ?w2"
    using f r lt
    by (simp add: step_def poll_step_def Let_def dispatch_def SendToChannel_def
        SendToChannel_body_def chan_send_def make_chan_def)
  let ?w3 = "w\<lparr>sent := sent w @ [(i, m)], calls := calls w @ [(i, m)]\<rparr>"
  have q: "(queuelist ?h)[i := make_chan 2] = queuelist ?h"
    using f(10) by (metis list_update_id)
  have s3: "step get (Worker i) ?w2 = Some ?w3"
    using f q by (simp add: step_def worker_step_def Let_def make_chan_def)
  have "run get (round_trip m i) w = Some ?w3"
    using s1 s2 s3 by (simp add: round_trip_def deliver_def)
  moreover have "idle_for get m i ?w3"
    using assms by (simp add: idle_for_def Let_def)
  ultimately show ?thesis by simp
qed

lemma round_trips:
  assumes "idle_for get m i w"
  shows "\<exists>w1. run get (concat (replicate n (round_trip m i))) w = Some w1 \<and>
           idle_for get m i w1 \<and>
           length (sent w1) = length (sent w) + n \<and>
           length (calls w1) = length (calls w) + n"
  using assms
proof (induction n arbitrary: w)
  case 0
  then show ?case by simp
next
  case (Suc n)
  from round_trip_once [OF Suc.prems] obtain w1 where
    w1: "run get (round_trip m i) w = Some w1" "idle_for get m i w1"
      "length (sent w1) = Suc (length (sent w))" "length (calls w1) = Suc (length (calls w))"
    by blast
  from Suc.IH [OF w1(2)] obtain w2 where
    w2: "run get (concat (replicate n (round_trip m i))) w1 = Some w2" "idle_for get m i w2"
      "length (sent w2) = length (sent w1) + n" "length (calls w2) = length (calls w1) + n"
    by blast
  from w1 w2 show ?case by (simp add: run_append)
qed

lemma subscribed_idle:
  "map_option (\<lambda>w. idle_for sample_Get (sample_msg [] 1 ''x'') 1 w \<and> sent w = [] \<and> calls w = [])
     (run_new kafka_up (sample_heap 0 0 4) 7 sample_Get
        [Call_Start, Poller (SubscribeTopics_result True)]) = Some True"
  by code_simp

text \<open>
  C1. The goroutine of \<open>Start\<close> keeps its \<open>index\<close> at 0, since \<open>SendToChannel\<close>
  increments a copy. So in mode 0 no run, however many messages it
  dispatches, makes the dispatcher call \<open>Commit\<close>: the number of bulk commits
  grows by exactly one when the goroutine leaves its loop and by nothing
  else. The instance below dispatches 2002 messages, all handled, and the
  transport has seen no bulk commit.
\<close>

theorem batched_commit_never_fires:
  "index w = 0 \<and> AutoCommitMode (heap w (param (handle w))) = 0 \<and> run get as w = Some w' \<longrightarrow>
   Commit_calls (consumer (handle w')) =
     Commit_calls (consumer (handle w)) +
       (if poller w' = Exited \<and> poller w \<noteq> Exited then 1 else 0)"
  using run_commits [of get as w w'] by blast

theorem batched_commit_never_fires_witness:
  "\<exists>w. run_new kafka_up (sample_heap 0 0 4) 7 sample_Get
          (Call_Start # Poller (SubscribeTopics_result True) #
           concat (replicate 2002 (round_trip (sample_msg [] 1 ''x'') 1))) = Some w \<and>
        length (sent w) = 2002 \<and> length (calls w) = 2002 \<and> poller w = Polling \<and>
        Commit_calls (consumer (handle w)) = 0"
proof -
  let ?m = "sample_msg [] 1 ''x''"
  let ?rest = "concat (replicate 2002 (round_trip ?m 1))"
  obtain w0 where w0: "NewConsumer kafka_up 0 0 (sample_heap 0 0 4) 7 0 = Created w0"
    and i0: "index w0 = 0" "AutoCommitMode (heap w0 (param (handle w0))) = 0"
      "Commit_calls (consumer (handle w0)) = 0" "poller w0 = NotStarted"
    by (simp add: NewConsumer_def kafka_up_def sample_heap_def sample_param_def fresh_client_def)
  from subscribed_idle obtain w1 where
    w1: "run sample_Get [Call_Start, Poller (SubscribeTopics_result True)] w0 = Some w1"
      "idle_for sample_Get ?m 1 w1" "sent w1 = []" "calls w1 = []"
    by (auto simp: run_new_def w0)
  from round_trips [OF w1(2), of 2002] obtain w2 where
    w2: "run sample_Get ?rest w1 = Some w2" "idle_for sample_Get ?m 1 w2"
      "length (sent w2) = length (sent w1) + 2002" "length (calls w2) = length (calls w1) + 2002"
    by blast
  have r: "run sample_Get (Call_Start # Poller (SubscribeTopics_result True) # ?rest) w0 = Some w2"
    using run_append [of sample_Get "[Call_Start, Poller (SubscribeTopics_result True)]" ?rest w0]
      w1(1) w2(1) by simp
  from w2(2) have p: "poller w2 = Polling" by (simp add: idle_for_def Let_def)
  have "Commit_calls (consumer (handle w2)) =
     Commit_calls (consumer (handle w0)) +
       (if poller w2 = Exited \<and> poller w0 \<noteq> Exited then 1 else 0)"
    using batched_commit_never_fires [of w0 sample_Get _ w2] r i0(1,2) by blast
  with i0 p have "Commit_calls (consumer (handle w2)) = 0" by simp
  with r p w2(3,4) w1(3,4) w0 show ?thesis by (simp add: run_new_def del: run.simps)
qed

subsection \<open>Queues and histories\<close>

lemma chan_send_Done: "chan_send x c = Done q \<Longrightarrow> q = c\<lparr>buf := buf c @ [x]\<rparr>"
  by (auto simp: chan_send_def split: if_splits)

lemma SendToChannel_effect:
  assumes "SendToChannel get w msg idx = Done w'"
  shows "\<exists>modv. route get (sis (handle w)) (ThreadNum (heap w (param (handle w)))) msg = Inr modv \<and>
           nat (sint modv) < length (bufs w) \<and>
           bufs w' = (bufs w)[nat (sint modv) := bufs w ! nat (sint modv) @ [msg]] \<and>
           sent w' = sent w @ [(nat (sint modv), msg)] \<and> calls w' = calls w"
  using assms
proof (rule SendToChannel_DoneE)
  fix modv q
  assume r: "route get (sis (handle w)) (ThreadNum (heap w (param (handle w)))) msg = Inr modv"
    and b: "0 \<le> sint modv" "sint modv < int (length (queuelist (handle w)))"
    and c: "chan_send msg (queuelist (handle w) ! nat (sint modv)) = Done q"
    and w': "w' = (let w1 = w\<lparr>handle := (handle w)\<lparr>queuelist := (queuelist (handle w))[nat (sint modv) := q]\<rparr>,
                      sent := sent w @ [(nat (sint modv), msg)]\<rparr>
           in if AutoCommitMode (heap w (param (handle w))) = 0
              then (if idx > 1000 then Commit w1 else w1)
              else if AutoCommitMode (heap w (param (handle w))) = 1
              then CommitMessage msg w1 else w1)"
  let ?i = "nat (sint modv)"
  from b have i: "?i < length (queuelist (handle w))" by linarith
  from w' have q: "queuelist (handle w') = (queuelist (handle w))[?i := q]"
    and s: "sent w' = sent w @ [(?i, msg)]" and cl: "calls w' = calls w"
    by (simp_all add: Let_def Commit_def CommitMessage_def)
  from chan_send_Done [OF c] have "buf q = buf (queuelist (handle w) ! ?i) @ [msg]" by simp
  with q i have "bufs w' = (bufs w)[?i := bufs w ! ?i @ [msg]]"
    by (simp add: bufs_def map_update)
  with r i s cl show ?thesis by (auto simp: bufs_def)
qed

lemma close_queues_buf:
  "close_queues is qs = (e, qs') \<Longrightarrow> map buf qs' = map buf qs"
proof (induction "is" arbitrary: qs)
  case Nil
  then show ?case by simp
next
  case (Cons i "is")
  show ?case
  proof (cases "i < length qs")
    case False
    with Cons.prems show ?thesis by simp
  next
    case True
    show ?thesis
    proof (cases "chan_close (qs ! i)")
      case (Inl x)
      with True Cons.prems show ?thesis by simp
    next
      case (Inr q)
      with True Cons.prems have r: "close_queues is (qs[i := q]) = (e, qs')" by simp
      from Inr have "buf q = buf (qs ! i)" by (auto simp: chan_close_def split: if_splits)
      with True have "map buf (qs[i := q]) = map buf qs"
        by (simp add: map_update list_update_same_conv)
      with Cons.IH [OF r] show ?thesis by simp
    qed
  qed
qed

lemma close_step_bufs:
  assumes "close_step w = Some w'"
  shows "bufs w' = bufs w"
  using assms
  by (auto simp: close_step_def Let_def bufs_def
      split: close_pc.splits if_splits option.splits outcome.splits prod.splits
      dest: close_queues_buf)

lemma poll_mode_queues: "queuelist (handle (poll_mode ev w)) = queuelist (handle w)"
  "sent (poll_mode ev w) = sent w" "calls (poll_mode ev w) = calls w"
  by (auto simp: poll_mode_def add_log_def split: option.splits kafka_event.splits)

lemma event_mode_queues: "queuelist (handle (event_mode ev w)) = queuelist (handle w)"
  "sent (event_mode ev w) = sent w" "calls (event_mode ev w) = calls w"
  by (auto simp: event_mode_def add_log_def split: kafka_event.splits)

text \<open>What one move does to the queues and to the two histories.\<close>

lemma step_effect:
  assumes "step get a w = Some w'"
  shows "(bufs w' = bufs w \<and> sent w' = sent w \<and> calls w' = calls w) \<or>
    (\<exists>msg modv. poller w = Sending msg \<and>
       route get (sis (handle w)) (ThreadNum (heap w (param (handle w)))) msg = Inr modv \<and>
       nat (sint modv) < length (bufs w) \<and>
       bufs w' = (bufs w)[nat (sint modv) := bufs w ! nat (sint modv) @ [msg]] \<and>
       sent w' = sent w @ [(nat (sint modv), msg)] \<and> calls w' = calls w) \<or>
    (\<exists>i msg rest. a = Worker i \<and> i < length (bufs w) \<and> i < length (workers w) \<and>
       workers w ! i \<and> bufs w ! i = msg # rest \<and>
       bufs w' = (bufs w)[i := rest] \<and> calls w' = calls w @ [(i, msg)] \<and> sent w' = sent w)"
proof (cases a)
  case Call_Start
  with assms show ?thesis by (auto simp: step_def Start_def bufs_def split: if_splits)
next
  case (Call_CommitMessage m)
  with assms show ?thesis by (auto simp: step_def CommitMessage_def bufs_def)
next
  case Call_Close
  with assms have c: "close_step w = Some w'" by (simp add: step_def)
  from close_step_bufs [OF c] close_step_frame(6,7) [OF c] show ?thesis by simp
next
  case (Worker i)
  with assms have c: "worker_step i w = Some w'" by (simp add: step_def)
  then show ?thesis
  proof (cases rule: worker_stepE)
    case finish
    then show ?thesis by (simp add: bufs_def)
  next
    case (deal msg rest)
    then have "bufs w' = (bufs w)[i := rest]" by (simp add: bufs_def map_update)
    with deal Worker show ?thesis by (simp add: bufs_def)
  next
    case (recover msg rest)
    then have "bufs w' = (bufs w)[i := rest]" by (simp add: bufs_def map_update)
    with recover Worker show ?thesis by (simp add: bufs_def)
  qed
next
  case (Poller r)
  with assms have c: "poll_step get r w = Some w'" by (simp add: step_def)
  then show ?thesis
  proof (cases rule: poll_stepE)
    case (send e)
    show ?thesis
    proof (cases "SendToChannel get w e (index w)")
      case (Done w1)
      with send have w': "w' = w1\<lparr>poller := Polling\<rparr>" by (simp add: dispatch_def)
      from SendToChannel_effect [OF Done] obtain modv where
        "route get (sis (handle w)) (ThreadNum (heap w (param (handle w)))) e = Inr modv"
        "nat (sint modv) < length (bufs w)"
        "bufs w1 = (bufs w)[nat (sint modv) := bufs w ! nat (sint modv) @ [e]]"
        "sent w1 = sent w @ [(nat (sint modv), e)]" "calls w1 = calls w"
        by blast
      with w' send(1) show ?thesis by (auto simp: bufs_def)
    next
      case Blocked
      with send show ?thesis by (simp add: dispatch_def)
    next
      case (Panic x)
      with send show ?thesis by (auto simp: dispatch_def bufs_def)
    qed
  next
    case (poll ev)
    with poll_mode_queues [of ev w] show ?thesis by (simp add: bufs_def)
  next
    case (event ev)
    with event_mode_queues [of ev w] show ?thesis by (simp add: bufs_def)
  qed (auto simp: Let_def add_log_def loop_exit_def Commit_def bufs_def)
qed

lemma calls_of_append:
  "calls w' = calls w @ [(j, m)] \<Longrightarrow>
   calls_of i w' = calls_of i w @ (if j = i then [m] else [])"
  by (simp add: calls_of_def)

lemma sent_to_append:
  "sent w' = sent w @ [(j, m)] \<Longrightarrow>
   sent_to i w' = sent_to i w @ (if j = i then [m] else [])"
  by (simp add: sent_to_def)

lemma calls_of_same: "calls w' = calls w \<Longrightarrow> calls_of i w' = calls_of i w"
  by (simp add: calls_of_def)

lemma sent_to_same: "sent w' = sent w \<Longrightarrow> sent_to i w' = sent_to i w"
  by (simp add: sent_to_def)

lemma step_fifo:
  assumes s: "step get a w = Some w'"
    and inv: "\<forall>i<length (bufs w). calls_of i w @ bufs w ! i = sent_to i w"
    and bnd: "\<forall>c\<in>set (calls w). fst c < length (bufs w)"
  shows "(\<forall>i<length (bufs w'). calls_of i w' @ bufs w' ! i = sent_to i w') \<and>
         (\<forall>c\<in>set (calls w'). fst c < length (bufs w'))"
proof -
  from step_effect [OF s] consider
    (same) "bufs w' = bufs w" "sent w' = sent w" "calls w' = calls w"
  | (send) msg j where "j < length (bufs w)" "bufs w' = (bufs w)[j := bufs w ! j @ [msg]]"
      "sent w' = sent w @ [(j, msg)]" "calls w' = calls w"
  | (deal) j msg rest where "j < length (bufs w)" "bufs w ! j = msg # rest"
      "bufs w' = (bufs w)[j := rest]" "calls w' = calls w @ [(j, msg)]" "sent w' = sent w"
    by blast
  then show ?thesis
  proof cases
    case same
    with inv bnd show ?thesis by (simp add: calls_of_def sent_to_def)
  next
    case (send msg j)
    have "calls_of i w' @ bufs w' ! i = sent_to i w'" if "i < length (bufs w)" for i
    proof (cases "i = j")
      case True
      with send inv that show ?thesis
        by (simp add: sent_to_append [OF send(3)] calls_of_same [OF send(4)])
    next
      case False
      with send inv that show ?thesis
        by (simp add: sent_to_append [OF send(3)] calls_of_same [OF send(4)])
    qed
    with send bnd show ?thesis by simp
  next
    case (deal j msg rest)
    have "calls_of i w' @ bufs w' ! i = sent_to i w'" if "i < length (bufs w)" for i
    proof (cases "i = j")
      case True
      with deal inv that have "calls_of j w @ msg # rest = sent_to j w" by metis
      with True deal that show ?thesis
        by (simp add: calls_of_append [OF deal(4)] sent_to_same [OF deal(5)])
    next
      case False
      with deal inv that show ?thesis
        by (simp add: calls_of_append [OF deal(4)] sent_to_same [OF deal(5)])
    qed
    with deal bnd show ?thesis by auto
  qed
qed

lemma run_fifo:
  assumes "run get as w = Some w'"
    and "\<forall>i<length (bufs w). calls_of i w @ bufs w ! i = sent_to i w"
    and "\<forall>c\<in>set (calls w). fst c < length (bufs w)"
  shows "(\<forall>i<length (bufs w'). calls_of i w' @ bufs w' ! i = sent_to i w') \<and>
         (\<forall>c\<in>set (calls w'). fst c < length (bufs w'))"
proof -
  let ?P = "\<lambda>w. (\<forall>i<length (bufs w). calls_of i w @ bufs w ! i = sent_to i w) \<and>
         (\<forall>c\<in>set (calls w). fst c < length (bufs w))"
  have "?P w'"
  proof (rule run_invariant [where P = ?P and get = get and w = w and as = as])
    fix a v v'
    assume "?P v" "step get a v = Some v'"
    then show "?P v'" using step_fifo [of get a v v'] by blast
  next
    show "?P w" using assms(2,3) by simp
  next
    show "run get as w = Some w'" by (rule assms(1))
  qed
  then show ?thesis .
qed

lemma route_ring_index:
  assumes "ring_contract get" "0 < n" "n < 2 ^ 63" "Key msg \<noteq> []"
    "route get (new_ring n) n msg = Inr modv"
  shows "ring_index get (new_ring n) (Key msg) = Some (nat (sint modv))"
proof -
  from route_new_ring [OF assms(1-4)] obtain k where
    k: "k < nat n" "get (new_ring n) (Key msg) = Some (Sprintf_d (int k))"
      "route get (new_ring n) n msg = Inr (to_int32 (int k))" by blast
  with assms(3) have "Atoi (Sprintf_d (int k)) = Some (int k)"
    by (intro Atoi_Sprintf_d) auto
  with k assms(5) show ?thesis by (simp add: ring_index_def)
qed

lemma step_routing:
  assumes s: "step get a w = Some w'"
    and c: "ring_contract get" and n: "0 < n" "n < 2 ^ 63"
    and r: "sis (handle w) = new_ring n" "ThreadNum (heap w (param (handle w))) = n"
    and inv: "\<forall>c\<in>set (sent w). Key (snd c) \<noteq> [] \<longrightarrow>
                ring_index get (new_ring n) (Key (snd c)) = Some (fst c)"
  shows "\<forall>c\<in>set (sent w'). Key (snd c) \<noteq> [] \<longrightarrow>
                ring_index get (new_ring n) (Key (snd c)) = Some (fst c)"
proof -
  from step_effect [OF s] consider
    (same) "sent w' = sent w"
  | (send) msg modv where
      "route get (sis (handle w)) (ThreadNum (heap w (param (handle w)))) msg = Inr modv"
      "sent w' = sent w @ [(nat (sint modv), msg)]"
    by blast
  then show ?thesis
  proof cases
    case same
    with inv show ?thesis by simp
  next
    case (send msg modv)
    with r have "route get (new_ring n) n msg = Inr modv" by simp
    from route_ring_index [OF c n _ this]
    have "Key msg \<noteq> [] \<longrightarrow> ring_index get (new_ring n) (Key msg) = Some (nat (sint modv))"
      by blast
    with send(2) inv show ?thesis by auto
  qed
qed

lemma run_routing:
  assumes "run get as w = Some w'"
    and c: "ring_contract get" and n: "0 < n" "n < 2 ^ 63"
    and r: "sis (handle w) = new_ring n" "ThreadNum (heap w (param (handle w))) = n"
    and inv: "\<forall>c\<in>set (sent w). Key (snd c) \<noteq> [] \<longrightarrow>
                ring_index get (new_ring n) (Key (snd c)) = Some (fst c)"
  shows "\<forall>c\<in>set (sent w'). Key (snd c) \<noteq> [] \<longrightarrow>
                ring_index get (new_ring n) (Key (snd c)) = Some (fst c)"
proof -
  let ?P = "\<lambda>w. sis (handle w) = new_ring n \<and> ThreadNum (heap w (param (handle w))) = n \<and>
     (\<forall>c\<in>set (sent w). Key (snd c) \<noteq> [] \<longrightarrow>
                ring_index get (new_ring n) (Key (snd c)) = Some (fst c))"
  have "?P w'"
  proof (rule run_invariant [where P = ?P and get = get and w = w and as = as])
    fix a v v'
    assume p: "?P v" and s: "step get a v = Some v'"
    from step_frame(1,2,3) [OF s] p
    have "sis (handle v') = new_ring n" "ThreadNum (heap v' (param (handle v'))) = n"
      by simp_all
    moreover from p step_routing [OF s c n]
    have "\<forall>c\<in>set (sent v'). Key (snd c) \<noteq> [] \<longrightarrow>
                ring_index get (new_ring n) (Key (snd c)) = Some (fst c)" by blast
    ultimately show "?P v'" by simp
  next
    show "?P w" using r inv by simp
  next
    show "run get as w = Some w'" by (rule assms(1))
  qed
  then show ?thesis by simp
qed

lemma Created_initial:
  assumes "NewConsumer knew now pid hp prm i0 = Created w0"
  obtains n where "0 < n" "n = (if ThreadNum (hp prm) \<le> 0 then 51 else ThreadNum (hp prm))"
    "sis (handle w0) = new_ring n" "ThreadNum (heap w0 (param (handle w0))) = n"
    "sent w0 = []" "calls w0 = []" "bufs w0 = replicate (nat n) []"
    "length (queuelist (handle w0)) = nat n"
    "poller w0 = NotStarted" "closer w0 = NotCalled" "wg (handle w0) = 1" "index w0 = 0"
    "workers w0 = replicate (nat n) True"
  using assms
  by (auto simp: NewConsumer_def Let_def bufs_def make_chan_def split: option.splits if_splits)

lemma user42_run:
  "map_option (\<lambda>w. (sent w, calls w))
     (run_new kafka_up (sample_heap 0 2 4) 7 sample_Get
        (Call_Start # Poller (SubscribeTopics_result True) #
         deliver (sample_msg ''user-42'' 0 ''A'') @ deliver (sample_msg ''user-42'' 3 ''B'') @
         [Worker 3, Worker 3])) =
   Some ([(3, sample_msg ''user-42'' 0 ''A''), (3, sample_msg ''user-42'' 3 ''B'')],
         [(3, sample_msg ''user-42'' 0 ''A''), (3, sample_msg ''user-42'' 3 ''B'')])"
  by code_simp

text \<open>
  C2. Take a lookup that honours the contract of \<open>Get\<close>, a thread number
  within Go's \<open>int\<close>, and any run of a consumer the constructor has built.
  Every message with a key was sent to the queue whose index the ring gives
  for that key, so two messages with the same key went to the same worker.
  For every worker, the messages it has handed to the handler followed by
  the messages still in its queue are the messages sent to its queue, in the
  order of the sends: the handler sees them in dispatch order.
\<close>

theorem same_key_same_worker_in_order:
  "ring_contract get \<and> ThreadNum (hp prm) < 2 ^ 63 \<and>
   NewConsumer knew now pid hp prm i0 = Created w0 \<and> run get as w0 = Some w \<longrightarrow>
   (\<forall>c\<in>set (sent w). Key (snd c) \<noteq> [] \<longrightarrow>
        ring_index get (sis (handle w)) (Key (snd c)) = Some (fst c)) \<and>
   (\<forall>c1\<in>set (sent w). \<forall>c2\<in>set (sent w).
        Key (snd c1) = Key (snd c2) \<and> Key (snd c1) \<noteq> [] \<longrightarrow> fst c1 = fst c2) \<and>
   (\<forall>i<length (queuelist (handle w)).
        calls_of i w @ buf (queuelist (handle w) ! i) = sent_to i w) \<and>
   (\<forall>i. prefix (calls_of i w) (sent_to i w))"
proof (intro impI)
  assume a: "ring_contract get \<and> ThreadNum (hp prm) < 2 ^ 63 \<and>
   NewConsumer knew now pid hp prm i0 = Created w0 \<and> run get as w0 = Some w"
  then have c: "ring_contract get" and lt: "ThreadNum (hp prm) < 2 ^ 63"
    and new: "NewConsumer knew now pid hp prm i0 = Created w0"
    and run: "run get as w0 = Some w" by simp_all
  from new obtain n where n: "0 < n"
    "n = (if ThreadNum (hp prm) \<le> 0 then 51 else ThreadNum (hp prm))"
    "sis (handle w0) = new_ring n" "ThreadNum (heap w0 (param (handle w0))) = n"
    "sent w0 = []" "calls w0 = []" "bufs w0 = replicate (nat n) []"
    by (rule Created_initial)
  from n(2) lt have n63: "n < 2 ^ 63" by (simp split: if_splits)
  from run_frame [OF run] n(3) have sis: "sis (handle w) = new_ring n" by simp
  have route: "\<forall>c\<in>set (sent w). Key (snd c) \<noteq> [] \<longrightarrow>
        ring_index get (new_ring n) (Key (snd c)) = Some (fst c)"
    using run_routing [OF run c n(1) n63 n(3,4)] n(5) by simp
  have fifo: "(\<forall>i<length (bufs w). calls_of i w @ bufs w ! i = sent_to i w) \<and>
         (\<forall>c\<in>set (calls w). fst c < length (bufs w))"
    using n(5,6,7) by (intro run_fifo [OF run]) (simp_all add: calls_of_def sent_to_def)
  have p: "prefix (calls_of i w) (sent_to i w)" for i
  proof (cases "i < length (bufs w)")
    case True
    with fifo have "calls_of i w @ bufs w ! i = sent_to i w" by simp
    then have "sent_to i w = calls_of i w @ bufs w ! i" by simp
    then show ?thesis by (rule prefixI)
  next
    case False
    with fifo have "\<forall>c\<in>set (calls w). fst c \<noteq> i" by auto
    then have "calls_of i w = []" by (simp add: calls_of_def filter_empty_conv)
    then show ?thesis by simp
  qed
  have same: "\<forall>c1\<in>set (sent w). \<forall>c2\<in>set (sent w).
        Key (snd c1) = Key (snd c2) \<and> Key (snd c1) \<noteq> [] \<longrightarrow> fst c1 = fst c2"
  proof (intro ballI impI)
    fix c1 c2
    assume m: "c1 \<in> set (sent w)" "c2 \<in> set (sent w)"
      and k: "Key (snd c1) = Key (snd c2) \<and> Key (snd c1) \<noteq> []"
    from k have k1: "Key (snd c1) \<noteq> []" and k2: "Key (snd c2) \<noteq> []"
      and ke: "Key (snd c2) = Key (snd c1)" by auto
    from route m(1) k1 have a: "ring_index get (new_ring n) (Key (snd c1)) = Some (fst c1)"
      by blast
    from route m(2) k2 have b: "ring_index get (new_ring n) (Key (snd c2)) = Some (fst c2)"
      by blast
    from a b ke show "fst c1 = fst c2" by simp
  qed
  from fifo have q: "\<forall>i<length (queuelist (handle w)).
        calls_of i w @ buf (queuelist (handle w) ! i) = sent_to i w"
    by (simp add: bufs_def)
  from route sis have r1: "\<forall>c\<in>set (sent w). Key (snd c) \<noteq> [] \<longrightarrow>
        ring_index get (sis (handle w)) (Key (snd c)) = Some (fst c)" by simp
  from p have p': "\<forall>i. prefix (calls_of i w) (sent_to i w)" by blast
  show "(\<forall>c\<in>set (sent w). Key (snd c) \<noteq> [] \<longrightarrow>
        ring_index get (sis (handle w)) (Key (snd c)) = Some (fst c)) \<and>
   (\<forall>c1\<in>set (sent w). \<forall>c2\<in>set (sent w).
        Key (snd c1) = Key (snd c2) \<and> Key (snd c1) \<noteq> [] \<longrightarrow> fst c1 = fst c2) \<and>
   (\<forall>i<length (queuelist (handle w)).
        calls_of i w @ buf (queuelist (handle w) ! i) = sent_to i w) \<and>
   (\<forall>i. prefix (calls_of i w) (sent_to i w))"
    by (rule conjI [OF r1 conjI [OF same conjI [OF q p']]])
qed

theorem same_key_same_worker_in_order_witness:
  "ring_contract sample_Get \<and> ThreadNum (sample_heap 0 2 4 7) < 2 ^ 63 \<and>
   (\<exists>w. run_new kafka_up (sample_heap 0 2 4) 7 sample_Get
        (Call_Start # Poller (SubscribeTopics_result True) #
         deliver (sample_msg ''user-42'' 0 ''A'') @ deliver (sample_msg ''user-42'' 3 ''B'') @
         [Worker 3, Worker 3]) = Some w \<and>
      sent w = [(3, sample_msg ''user-42'' 0 ''A''), (3, sample_msg ''user-42'' 3 ''B'')] \<and>
      calls_of 3 w = [sample_msg ''user-42'' 0 ''A'', sample_msg ''user-42'' 3 ''B''] \<and>
      ring_index sample_Get (sis (handle w)) ''user-42'' = Some 3 \<and>
      prefix (calls_of 3 w) (sent_to 3 w))"
proof -
  let ?as = "Call_Start # Poller (SubscribeTopics_result True) #
         deliver (sample_msg ''user-42'' 0 ''A'') @ deliver (sample_msg ''user-42'' 3 ''B'') @
         [Worker 3, Worker 3]"
  have t: "ThreadNum (sample_heap 0 2 4 7) < 2 ^ 63"
    by (simp add: sample_heap_def sample_param_def)
  obtain w0 where w0: "NewConsumer kafka_up 0 0 (sample_heap 0 2 4) 7 0 = Created w0"
    by (simp add: NewConsumer_def kafka_up_def Let_def)
  from user42_run obtain w where w: "run sample_Get ?as w0 = Some w"
    and s: "sent w = [(3, sample_msg ''user-42'' 0 ''A''), (3, sample_msg ''user-42'' 3 ''B'')]"
    and cl: "calls w = [(3, sample_msg ''user-42'' 0 ''A''), (3, sample_msg ''user-42'' 3 ''B'')]"
    unfolding run_new_def w0 by (auto simp del: run.simps)
  have hyp: "ring_contract sample_Get \<and> ThreadNum (sample_heap 0 2 4 7) < 2 ^ 63 \<and>
     NewConsumer kafka_up 0 0 (sample_heap 0 2 4) 7 0 = Created w0 \<and>
     run sample_Get ?as w0 = Some w"
    using ring_contract_sample_Get t w0 w by (intro conjI)
  note concl = same_key_same_worker_in_order
    [of sample_Get "sample_heap 0 2 4" 7 kafka_up 0 0 0 w0 ?as w, THEN mp, OF hyp]
  from concl have r: "\<forall>c\<in>set (sent w). Key (snd c) \<noteq> [] \<longrightarrow>
        ring_index sample_Get (sis (handle w)) (Key (snd c)) = Some (fst c)"
    by (rule conjunct1)
  from concl have p: "prefix (calls_of 3 w) (sent_to 3 w)"
    by blast
  from r s have i: "ring_index sample_Get (sis (handle w)) ''user-42'' = Some 3"
    by (simp add: sample_msg_def)
  from cl have c: "calls_of 3 w = [sample_msg ''user-42'' 0 ''A'', sample_msg ''user-42'' 3 ''B'']"
    by (simp add: calls_of_def)
  have "run_new kafka_up (sample_heap 0 2 4) 7 sample_Get ?as = Some w"
    unfolding run_new_def w0 using w by simp
  with s c i p have "\<exists>w. run_new kafka_up (sample_heap 0 2 4) 7 sample_Get ?as = Some w \<and>
      sent w = [(3, sample_msg ''user-42'' 0 ''A''), (3, sample_msg ''user-42'' 3 ''B'')] \<and>
      calls_of 3 w = [sample_msg ''user-42'' 0 ''A'', sample_msg ''user-42'' 3 ''B''] \<and>
      ring_index sample_Get (sis (handle w)) ''user-42'' = Some 3 \<and>
      prefix (calls_of 3 w) (sent_to 3 w)"
    by blast
  with ring_contract_sample_Get t show ?thesis by blast
qed

subsection \<open>The dispatcher against its specification\<close>














subsection \<open>Close and the subscription loop\<close>

text \<open>
  Two runs of \<open>Close\<close>: the goroutine of \<open>Start\<close> can write its last log
  line after \<open>Close\<close> has returned, and a second call of \<open>Close\<close> panics when
  it closes the first queue again. A panic while closing leaves the queues
  closed before it closed.
\<close>

lemma exit_line_after_Close:
  "map_option (\<lambda>w. (closer w, logs w))
     (run_new kafka_up (sample_heap 0 0 4) 7 sample_Get
        [Call_Start, Poller (SubscribeTopics_result True), Call_Close,
         Poller (Poll_result None), Call_Close, Call_Close, Poller (Poll_result None)]) =
   Some (Returned, [LogWaitClose, LogClosed, LogStartIsExit])"
  by code_simp

lemma second_Close_panics:
  "map_option (\<lambda>w. (closer w, map closed (queuelist (handle w))))
     (run_new kafka_up (sample_heap 0 0 4) 7 sample_Get
        [Call_Start, Poller (SubscribeTopics_result True), Call_Close,
         Poller (Poll_result None), Call_Close, Call_Close,
         Call_Close, Call_Close, Call_Close]) =
   Some (ClosePanicked, [True, True, True, True])"
  by code_simp

lemma close_queues_keeps_closed:
  "close_queues [0, 1, 2]
     [make_chan 2, (make_chan 2)\<lparr>closed := True\<rparr>, make_chan 2 :: Message chan] =
   (Some CloseOfClosedChannel,
    [(make_chan 2)\<lparr>closed := True\<rparr>, (make_chan 2)\<lparr>closed := True\<rparr>, make_chan 2])"
  by (simp add: chan_close_def make_chan_def)

lemma close_step_Returned:
  assumes "close_step w = Some w'" "closer w \<noteq> Returned"
  shows "closer w' = Returned \<longrightarrow> wg (handle w) = 0"
  using assms
  by (auto simp: close_step_def Let_def
      split: close_pc.splits if_splits option.splits outcome.splits prod.splits)

lemma step_subscribing:
  assumes s: "step get a w = Some w'"
    and p: "poller w = NotStarted \<or> poller w = Subscribing"
    and g: "0 < wg (handle w)" and c: "closer w \<noteq> Returned"
    and a: "a \<noteq> Poller (SubscribeTopics_result True)"
  shows "(poller w' = NotStarted \<or> poller w' = Subscribing) \<and> 0 < wg (handle w') \<and>
         closer w' \<noteq> Returned"
proof (cases a)
  case Call_Start
  with s p g c show ?thesis by (auto simp: step_def Start_def split: if_splits)
next
  case (Call_CommitMessage m)
  with s p g c show ?thesis by (auto simp: step_def CommitMessage_def)
next
  case Call_Close
  with s have cs: "close_step w = Some w'" by (simp add: step_def)
  from close_step_Returned [OF cs c] close_step_frame(8,10) [OF cs] p g
  show ?thesis by auto
next
  case (Worker i)
  with s have ws: "worker_step i w = Some w'" by (simp add: step_def)
  from worker_step_frame(7,9,12) [OF ws] p g c show ?thesis by simp
next
  case (Poller r)
  with s have ps: "poll_step get r w = Some w'" by (simp add: step_def)
  then show ?thesis
  proof (cases rule: poll_stepE)
    case (subscribe ok)
    with a Poller have "\<not> ok" by auto
    with subscribe p g c show ?thesis by (simp add: Let_def add_log_def)
  qed (use p in auto)
qed

lemma run_subscribing:
  "run get as w = Some w' \<Longrightarrow> poller w = NotStarted \<or> poller w = Subscribing \<Longrightarrow>
   0 < wg (handle w) \<Longrightarrow> closer w \<noteq> Returned \<Longrightarrow>
   Poller (SubscribeTopics_result True) \<notin> set as \<Longrightarrow>
   (poller w' = NotStarted \<or> poller w' = Subscribing) \<and> 0 < wg (handle w') \<and>
         closer w' \<noteq> Returned"
proof (induction as arbitrary: w)
  case Nil
  then show ?case by simp
next
  case (Cons a as)
  then obtain w1 where s: "step get a w = Some w1" and r: "run get as w1 = Some w'"
    by (auto split: option.splits)
  from Cons.prems(5) have a: "a \<noteq> Poller (SubscribeTopics_result True)"
    and as: "Poller (SubscribeTopics_result True) \<notin> set as" by auto
  from step_subscribing [OF s Cons.prems(2,3,4) a]
  have "poller w1 = NotStarted \<or> poller w1 = Subscribing" "0 < wg (handle w1)"
    "closer w1 \<noteq> Returned" by simp_all
  from Cons.IH [OF r this as] show ?case .
qed

lemma poll_loop_leaves_when_closed:
  "poller w = Polling \<Longrightarrow> isclose (handle w) \<Longrightarrow>
   poll_step get r w = Some (loop_exit w) \<and> poller (loop_exit w) = Exited \<and>
   wg (handle (loop_exit w)) = wg (handle w) - 1"
  by (simp add: poll_step_def loop_exit_def Let_def Commit_def)

lemma failing_subscription_run:
  "map_option (\<lambda>w. (isclose (handle w), closer w, poller w, close_step w = None))
     (run_new kafka_up (sample_heap 0 0 4) 7 sample_Get
        [Call_Start, Poller (SubscribeTopics_result False), Call_Close, Call_Close,
         Poller (SubscribeTopics_result False), Poller (SubscribeTopics_result False)]) =
   Some (True, Waiting, Subscribing, True)"
  by code_simp

text \<open>
  C5. The goroutine of \<open>Start\<close> reads \<open>isclose\<close> in its main loop only, where
  it leaves at the next iteration. While it is still subscribing it never
  reads the flag: in every run in which no subscription attempt succeeds,
  whatever else happens and whether or not \<open>Close\<close> was called, the goroutine
  does not exit, the wait group stays above zero and \<open>Close\<close> has not
  returned.
\<close>

theorem Close_never_returns_while_subscribing:
  "(poller w = NotStarted \<or> poller w = Subscribing) \<and> 0 < wg (handle w) \<and>
   closer w \<noteq> Returned \<and> Poller (SubscribeTopics_result True) \<notin> set as \<and>
   run get as w = Some w' \<longrightarrow>
   closer w' \<noteq> Returned \<and> poller w' \<noteq> Exited \<and> 0 < wg (handle w')"
  using run_subscribing [of get as w w'] by auto

theorem Close_never_returns_while_subscribing_witness:
  "\<exists>w. run_new kafka_up (sample_heap 0 0 4) 7 sample_Get
        [Call_Start, Poller (SubscribeTopics_result False), Call_Close, Call_Close,
         Poller (SubscribeTopics_result False), Poller (SubscribeTopics_result False)] = Some w \<and>
      isclose (handle w) \<and> closer w = Waiting \<and> poller w = Subscribing \<and>
      close_step w = None \<and> 0 < wg (handle w)"
proof -
  let ?as = "[Call_Start, Poller (SubscribeTopics_result False), Call_Close, Call_Close,
         Poller (SubscribeTopics_result False), Poller (SubscribeTopics_result False)]"
  obtain w0 where w0: "NewConsumer kafka_up 0 0 (sample_heap 0 0 4) 7 0 = Created w0"
    by (simp add: NewConsumer_def kafka_up_def Let_def)
  from w0 have i: "poller w0 = NotStarted" "closer w0 = NotCalled" "wg (handle w0) = 1"
    by (auto elim: Created_initial)
  from failing_subscription_run obtain w where w: "run sample_Get ?as w0 = Some w"
    and f: "isclose (handle w)" "closer w = Waiting" "poller w = Subscribing"
      "close_step w = None"
    unfolding run_new_def w0 by (auto simp del: run.simps)
  have hyp: "(poller w0 = NotStarted \<or> poller w0 = Subscribing) \<and> 0 < wg (handle w0) \<and>
     closer w0 \<noteq> Returned \<and> Poller (SubscribeTopics_result True) \<notin> set ?as \<and>
     run sample_Get ?as w0 = Some w"
    using i w by (simp del: run.simps)
  from Close_never_returns_while_subscribing [of w0 ?as sample_Get w, THEN mp, OF hyp]
  have "0 < wg (handle w)" by simp
  moreover have "run_new kafka_up (sample_heap 0 0 4) 7 sample_Get ?as = Some w"
    unfolding run_new_def w0 using w by simp
  ultimately show ?thesis using f by blast
qed

subsection \<open>The handler's outcome\<close>

lemma bad_message_queued:
  "map_option (\<lambda>w. (buf (queuelist (handle w) ! 1), calls w, logs w,
        Dealhanle (heap w (param (handle w))) (sample_msg [] 1 ''bad'')))
     (run_new kafka_up (sample_heap 0 2 4) 7 sample_Get
        (Call_Start # Poller (SubscribeTopics_result True) # deliver (sample_msg [] 1 ''bad''))) =
   Some ([sample_msg [] 1 ''bad''], [], [], DealError)"
  by code_simp

lemma bad_message_handled:
  "\<not> Option.is_none (run_new kafka_up (sample_heap 0 2 4) 7 sample_Get
        ((Call_Start # Poller (SubscribeTopics_result True) # deliver (sample_msg [] 1 ''bad'')) @
         [Worker 1]))"
  by code_simp

text \<open>
  C9, as the claim states it, fails: the worker drops what \<open>DealMessage\<close>
  returns. A message whose handler returns an error is handled once and
  nothing is logged.
\<close>

theorem handler_failure_not_logged:
  "Dealhanle (sample_heap 0 2 4 7) (sample_msg [] 1 ''bad'') = DealError \<and>
   map_option (\<lambda>w. (calls w, logs w, bufs w ! 1))
     (run_new kafka_up (sample_heap 0 2 4) 7 sample_Get
        (Call_Start # Poller (SubscribeTopics_result True) #
         deliver (sample_msg [] 1 ''bad'') @ [Worker 1])) =
   Some ([(1, sample_msg [] 1 ''bad'')], [], [])"
  by code_simp

text \<open>
  C9, amended. A worker that takes a message from its queue calls the
  handler once with it: the message leaves the queue, the call is recorded
  once, and nothing is sent again. When the handler returns, with or without
  an error, nothing is logged and the worker goes on. In every run of a
  consumer the constructor has built, the calls of a worker followed by the
  content of its queue are the sends to its queue: no message is handled
  twice or put back.
\<close>

theorem handler_once_per_received_message:
  "(worker_step i w = Some w' \<and> buf (queuelist (handle w) ! i) = msg # rest \<longrightarrow>
      calls w' = calls w @ [(i, msg)] \<and> bufs w' = (bufs w)[i := rest] \<and> sent w' = sent w \<and>
      (Dealhanle (heap w (param (handle w))) msg \<noteq> DealPanic \<longrightarrow>
         logs w' = logs w \<and> workers w' = workers w)) \<and>
   (NewConsumer knew now pid hp prm i0 = Created w0 \<and> run get as w0 = Some w1 \<longrightarrow>
      (\<forall>j<length (queuelist (handle w1)).
          calls_of j w1 @ buf (queuelist (handle w1) ! j) = sent_to j w1))"
proof (rule conjI; rule impI)
  assume a: "worker_step i w = Some w' \<and> buf (queuelist (handle w) ! i) = msg # rest"
  then have s: "worker_step i w = Some w'" and b: "buf (queuelist (handle w) ! i) = msg # rest"
    by simp_all
  from s show "calls w' = calls w @ [(i, msg)] \<and> bufs w' = (bufs w)[i := rest] \<and>
      sent w' = sent w \<and>
      (Dealhanle (heap w (param (handle w))) msg \<noteq> DealPanic \<longrightarrow>
         logs w' = logs w \<and> workers w' = workers w)"
  proof (cases rule: worker_stepE)
    case finish
    with b show ?thesis by simp
  next
    case (deal m r)
    with b show ?thesis by (simp add: bufs_def map_update)
  next
    case (recover m r)
    with b show ?thesis by (simp add: bufs_def map_update)
  qed
next
  assume a: "NewConsumer knew now pid hp prm i0 = Created w0 \<and> run get as w0 = Some w1"
  then have new: "NewConsumer knew now pid hp prm i0 = Created w0"
    and run: "run get as w0 = Some w1" by simp_all
  from new obtain n where n: "sent w0 = []" "calls w0 = []" "bufs w0 = replicate (nat n) []"
    by (rule Created_initial)
  have "(\<forall>i<length (bufs w1). calls_of i w1 @ bufs w1 ! i = sent_to i w1) \<and>
         (\<forall>c\<in>set (calls w1). fst c < length (bufs w1))"
    using n by (intro run_fifo [OF run]) (simp_all add: calls_of_def sent_to_def)
  then show "\<forall>j<length (queuelist (handle w1)).
          calls_of j w1 @ buf (queuelist (handle w1) ! j) = sent_to j w1"
    by (simp add: bufs_def)
qed

theorem handler_once_per_received_message_witness:
  "\<exists>w. run_new kafka_up (sample_heap 0 2 4) 7 sample_Get
        ((Call_Start # Poller (SubscribeTopics_result True) # deliver (sample_msg [] 1 ''bad'')) @
         [Worker 1]) = Some w \<and>
      calls w = [(1, sample_msg [] 1 ''bad'')] \<and> logs w = [] \<and>
      calls_of 1 w @ buf (queuelist (handle w) ! 1) = sent_to 1 w"
proof -
  let ?m = "sample_msg [] 1 ''bad''"
  let ?pre = "Call_Start # Poller (SubscribeTopics_result True) # deliver ?m"
  obtain w0 where w0: "NewConsumer kafka_up 0 0 (sample_heap 0 2 4) 7 0 = Created w0"
    by (simp add: NewConsumer_def kafka_up_def Let_def)
  from w0 have len: "length (queuelist (handle w0)) = 4"
    by (auto elim!: Created_initial simp: sample_heap_def sample_param_def)
  from bad_message_queued obtain wa where wa: "run sample_Get ?pre w0 = Some wa"
    and f: "buf (queuelist (handle wa) ! 1) = [?m]" "calls wa = []" "logs wa = []"
      "Dealhanle (heap wa (param (handle wa))) ?m = DealError"
    unfolding run_new_def w0 by (auto simp del: run.simps)
  from bad_message_handled obtain w where w: "run sample_Get (?pre @ [Worker 1]) w0 = Some w"
    unfolding run_new_def w0 by (auto simp: Option.is_none_def simp del: run.simps)
  have "run sample_Get (?pre @ [Worker 1]) w0 =
      (case run sample_Get ?pre w0 of None \<Rightarrow> None | Some v \<Rightarrow> run sample_Get [Worker 1] v)"
    by (rule run_append)
  with w wa have "run sample_Get [Worker 1] wa = Some w" by (simp only: option.case)
  then have st: "worker_step 1 wa = Some w"
    by (simp add: step_def split: option.splits)
  have hyp1: "worker_step 1 wa = Some w \<and> buf (queuelist (handle wa) ! 1) = ?m # []"
    using st f by simp
  have hyp2: "NewConsumer kafka_up 0 0 (sample_heap 0 2 4) 7 0 = Created w0 \<and>
      run sample_Get (?pre @ [Worker 1]) w0 = Some w"
    using w0 w by (intro conjI)
  note inst = handler_once_per_received_message
    [of 1 wa w ?m "[]" kafka_up 0 0 "sample_heap 0 2 4" 7 0 w0 sample_Get "?pre @ [Worker 1]" w]
  from inst [THEN conjunct1, THEN mp, OF hyp1] f
  have c: "calls w = [(1, ?m)]" "logs w = []" by simp_all
  from run_frame [OF w] len have "1 < length (queuelist (handle w))" by simp
  with inst [THEN conjunct2, THEN mp, OF hyp2]
  have q: "calls_of 1 w @ buf (queuelist (handle w) ! 1) = sent_to 1 w" by blast
  have "run_new kafka_up (sample_heap 0 2 4) 7 sample_Get (?pre @ [Worker 1]) = Some w"
    unfolding run_new_def w0 using w by simp
  with c q show ?thesis by blast
qed

subsection \<open>A handler that panics\<close>

lemma step_workers:
  assumes "step get a w = Some w'" "i < length (workers w)" "\<not> workers w ! i"
  shows "i < length (workers w') \<and> \<not> workers w' ! i"
proof (cases a)
  case (Worker j)
  with assms have s: "worker_step j w = Some w'" by (simp add: step_def)
  then show ?thesis
  proof (cases rule: worker_stepE)
    case finish
    with assms show ?thesis by (cases "i = j") simp_all
  next
    case (deal m r)
    with assms show ?thesis by simp
  next
    case (recover m r)
    with assms show ?thesis by (cases "i = j") simp_all
  qed
next
  case (Poller r)
  with assms have "poll_step get r w = Some w'" by (simp add: step_def)
  from poll_step_frame(6) [OF this] assms show ?thesis by simp
next
  case Call_Close
  with assms have "close_step w = Some w'" by (simp add: step_def)
  from close_step_frame(5) [OF this] assms show ?thesis by simp
next
  case Call_Start
  with assms show ?thesis by (auto simp: step_def Start_def split: if_splits)
next
  case (Call_CommitMessage m)
  with assms show ?thesis by (auto simp: step_def CommitMessage_def)
qed

lemma step_dead_worker:
  assumes s: "step get a w = Some w'"
    and i: "i < length (workers w)" "i < length (bufs w)" and d: "\<not> workers w ! i"
  shows "i < length (workers w') \<and> i < length (bufs w') \<and> \<not> workers w' ! i \<and>
         calls_of i w' = calls_of i w \<and> prefix (bufs w ! i) (bufs w' ! i)"
proof -
  from step_effect [OF s] consider
    (same) "bufs w' = bufs w" "calls w' = calls w"
  | (send) msg j where "bufs w' = (bufs w)[j := bufs w ! j @ [msg]]" "calls w' = calls w"
  | (deal) j msg rest where "workers w ! j" "bufs w' = (bufs w)[j := rest]"
      "calls w' = calls w @ [(j, msg)]"
    by blast
  then have "i < length (bufs w') \<and> calls_of i w' = calls_of i w \<and>
      prefix (bufs w ! i) (bufs w' ! i)"
  proof cases
    case same
    with i show ?thesis by (simp add: calls_of_def)
  next
    case (send msg j)
    with i show ?thesis by (cases "i = j") (simp_all add: calls_of_def)
  next
    case (deal j msg rest)
    with d have "j \<noteq> i" by auto
    with deal i show ?thesis by (simp add: calls_of_def)
  qed
  with step_workers [OF s i(1) d] show ?thesis by simp
qed

lemma run_dead_worker:
  "run get as w = Some w' \<Longrightarrow> i < length (workers w) \<Longrightarrow> i < length (bufs w) \<Longrightarrow>
   \<not> workers w ! i \<Longrightarrow>
   i < length (workers w') \<and> i < length (bufs w') \<and> \<not> workers w' ! i \<and>
   calls_of i w' = calls_of i w \<and> prefix (bufs w ! i) (bufs w' ! i)"
proof (induction as arbitrary: w)
  case Nil
  then show ?case by simp
next
  case (Cons a as)
  then obtain w1 where s: "step get a w = Some w1" and r: "run get as w1 = Some w'"
    by (auto split: option.splits)
  note one = step_dead_worker [OF s Cons.prems(2,3,4)]
  from one have a: "i < length (workers w1)" "i < length (bufs w1)" "\<not> workers w1 ! i"
    by simp_all
  note rest = Cons.IH [OF r a]
  from one rest have "prefix (bufs w ! i) (bufs w' ! i)"
    using prefix_order.order_trans by blast
  with one rest show ?case by simp
qed

lemma boom_queued:
  "map_option (\<lambda>w. (buf (queuelist (handle w) ! 1), calls w, logs w,
        Dealhanle (heap w (param (handle w))) (sample_msg [] 1 ''boom'')))
     (run_new kafka_up (sample_heap 0 2 4) 7 sample_Get
        (Call_Start # Poller (SubscribeTopics_result True) #
         deliver (sample_msg [] 1 ''boom'') @ deliver (sample_msg [] 1 ''x''))) =
   Some ([sample_msg [] 1 ''boom'', sample_msg [] 1 ''x''], [], [], DealPanic)"
  by code_simp

lemma boom_handled:
  "map_option (\<lambda>w. (bufs w ! 1, calls w))
     (run_new kafka_up (sample_heap 0 2 4) 7 sample_Get
        ((Call_Start # Poller (SubscribeTopics_result True) #
          deliver (sample_msg [] 1 ''boom'') @ deliver (sample_msg [] 1 ''x'')) @
         Worker 1 # deliver (sample_msg [] 1 ''y''))) =
   Some ([sample_msg [] 1 ''x'', sample_msg [] 1 ''y''], [(1, sample_msg [] 1 ''boom'')])"
  by code_simp

text \<open>
  C4. When the handler panics, the fault is recovered outside the loop of the
  worker: it is logged and the message is gone from the queue, but the
  goroutine has ended. In every run afterwards that worker is not running,
  cannot take a message, has made no further call of the handler, and the
  messages that were behind the faulting one stay in its queue.
\<close>

theorem panicking_worker_stops:
  "worker_step i w = Some w1 \<and> buf (queuelist (handle w) ! i) = msg # rest \<and>
   Dealhanle (heap w (param (handle w))) msg = DealPanic \<and> run get as w1 = Some w2 \<longrightarrow>
   logs w1 = logs w @ [LogDealChanException i] \<and> calls w1 = calls w @ [(i, msg)] \<and>
   bufs w1 ! i = rest \<and> \<not> workers w1 ! i \<and>
   \<not> workers w2 ! i \<and> worker_step i w2 = None \<and>
   calls_of i w2 = calls_of i w1 \<and> prefix rest (bufs w2 ! i)"
proof (rule impI)
  assume a: "worker_step i w = Some w1 \<and> buf (queuelist (handle w) ! i) = msg # rest \<and>
   Dealhanle (heap w (param (handle w))) msg = DealPanic \<and> run get as w1 = Some w2"
  then have s: "worker_step i w = Some w1" and b: "buf (queuelist (handle w) ! i) = msg # rest"
    and p: "Dealhanle (heap w (param (handle w))) msg = DealPanic"
    and r: "run get as w1 = Some w2" by simp_all
  from s have one: "logs w1 = logs w @ [LogDealChanException i] \<and>
      calls w1 = calls w @ [(i, msg)] \<and> bufs w1 ! i = rest \<and> \<not> workers w1 ! i \<and>
      i < length (workers w1) \<and> i < length (bufs w1)"
  proof (cases rule: worker_stepE)
    case finish
    with b show ?thesis by simp
  next
    case (deal m r)
    with b p show ?thesis by simp
  next
    case (recover m r)
    with b show ?thesis by (simp add: bufs_def)
  qed
  then have "i < length (workers w1)" "i < length (bufs w1)" "\<not> workers w1 ! i" by simp_all
  note after = run_dead_worker [OF r this]
  from after have "worker_step i w2 = None" by (simp add: worker_step_def Let_def)
  with one after show "logs w1 = logs w @ [LogDealChanException i] \<and>
   calls w1 = calls w @ [(i, msg)] \<and>
   bufs w1 ! i = rest \<and> \<not> workers w1 ! i \<and>
   \<not> workers w2 ! i \<and> worker_step i w2 = None \<and>
   calls_of i w2 = calls_of i w1 \<and> prefix rest (bufs w2 ! i)"
    by simp
qed

theorem panicking_worker_stops_witness:
  "\<exists>w. run_new kafka_up (sample_heap 0 2 4) 7 sample_Get
        ((Call_Start # Poller (SubscribeTopics_result True) #
          deliver (sample_msg [] 1 ''boom'') @ deliver (sample_msg [] 1 ''x'')) @
         Worker 1 # deliver (sample_msg [] 1 ''y'')) = Some w \<and>
      calls w = [(1, sample_msg [] 1 ''boom'')] \<and>
      bufs w ! 1 = [sample_msg [] 1 ''x'', sample_msg [] 1 ''y''] \<and>
      \<not> workers w ! 1 \<and> worker_step 1 w = None"
proof -
  let ?b = "sample_msg [] 1 ''boom''" and ?x = "sample_msg [] 1 ''x''"
  let ?pre = "Call_Start # Poller (SubscribeTopics_result True) # deliver ?b @ deliver ?x"
  let ?post = "deliver (sample_msg [] 1 ''y'')"
  obtain w0 where w0: "NewConsumer kafka_up 0 0 (sample_heap 0 2 4) 7 0 = Created w0"
    by (simp add: NewConsumer_def kafka_up_def Let_def)
  from boom_queued obtain wa where wa: "run sample_Get ?pre w0 = Some wa"
    and f: "buf (queuelist (handle wa) ! 1) = [?b, ?x]"
      "Dealhanle (heap wa (param (handle wa))) ?b = DealPanic"
    unfolding run_new_def w0 by (auto simp del: run.simps)
  from boom_handled obtain w where w: "run sample_Get (?pre @ Worker 1 # ?post) w0 = Some w"
    and g: "bufs w ! 1 = [?x, sample_msg [] 1 ''y'']" "calls w = [(1, ?b)]"
    unfolding run_new_def w0 by (auto simp del: run.simps)
  have "run sample_Get (?pre @ Worker 1 # ?post) w0 =
      (case run sample_Get ?pre w0 of None \<Rightarrow> None
       | Some v \<Rightarrow> run sample_Get (Worker 1 # ?post) v)"
    by (rule run_append)
  with w wa have "run sample_Get (Worker 1 # ?post) wa = Some w" by (simp only: option.case)
  then obtain w1 where st: "worker_step 1 wa = Some w1" and r: "run sample_Get ?post w1 = Some w"
    by (auto simp: step_def split: option.splits)
  have hyp: "worker_step 1 wa = Some w1 \<and> buf (queuelist (handle wa) ! 1) = ?b # [?x] \<and>
     Dealhanle (heap wa (param (handle wa))) ?b = DealPanic \<and> run sample_Get ?post w1 = Some w"
    using st f r by (intro conjI)
  from panicking_worker_stops [of 1 wa w1 ?b "[?x]" sample_Get ?post w, THEN mp, OF hyp]
  have "\<not> workers w ! 1" "worker_step 1 w = None" by simp_all
  moreover have "run_new kafka_up (sample_heap 0 2 4) 7 sample_Get (?pre @ Worker 1 # ?post) = Some w"
    unfolding run_new_def w0 using w by simp
  ultimately show ?thesis using g by blast
qed

end
